theory Spec2Isabelle
  imports Main
begin

section \<open>Data model\<close>

text \<open>
  The display record of \<^verbatim>\<open>main.go\<close> (\<^verbatim>\<open>type latestProjectEntry struct\<close>), field by
  field. Go strings are byte sequences, as \<^typ>\<open>string\<close> is.
\<close>

record latestProjectEntry =
  RepoName :: string
  RepoUrl :: string
  RepoLang :: string
  BranchName :: string
  BranchUrl :: string
  CommitID :: string
  CommitUrl :: string
  CommitAuthorID :: string
  CommitAuthorUrl :: string
  Time :: string

text \<open>
  The decoded GraphQL response, the anonymous \<^verbatim>\<open>query\<close> struct of
  \<^verbatim>\<open>fetchLatestProjects\<close>. The nesting of one-field structs is flattened into field
  names: \<open>hn_\<close> is \<^verbatim>\<open>History.Edges[k].Node\<close>, \<open>rn_\<close> is \<^verbatim>\<open>Refs.Edges[k].Node\<close>;
  \<open>rn_HistoryEdges\<close> is \<^verbatim>\<open>Node.Target.Commit.History.Edges\<close>. A \<^verbatim>\<open>time.Time\<close> is
  taken as its count of nanoseconds on the wall clock.
\<close>

record historyNode =
  hn_CommitUrl :: string
  hn_AbbreviatedOid :: string
  hn_AuthorUserLogin :: string
  hn_AuthorUserUrl :: string

record refNode =
  rn_Name :: string
  rn_HistoryEdges :: "historyNode list"

record repoNode =
  Name :: string
  Description :: string
  Url :: string
  PrimaryLanguageName :: string
  PushedAt :: int
  IsFork :: bool
  RefsEdges :: "refNode list"

record queryData =
  ViewerLogin :: string
  Nodes :: "repoNode list"

text \<open>
  What stops the process: the \<^verbatim>\<open>panic(err)\<close> after a failed query, carrying the
  error's text, and the runtime's index fault \<^verbatim>\<open>index out of range [i] with length n\<close>.
\<close>

datatype panicValue = QueryFailed string | IndexOutOfRange nat nat

section \<open>Durations\<close>

text \<open>
  \<^verbatim>\<open>time.Duration\<close> is an \<^verbatim>\<open>int64\<close> count of nanoseconds. It is modelled as an
  \<^typ>\<open>int\<close> with the saturation and the wrap-around of the library written out.
\<close>

definition minDuration :: int where "minDuration = - (2 ^ 63)"
definition maxDuration :: int where "maxDuration = 2 ^ 63 - 1"
definition Second :: int where "Second = 1000000000"
definition Minute :: int where "Minute = 60 * Second"
definition Hour :: int where "Hour = 60 * Minute"

definition wrap64 :: "int \<Rightarrow> int" where
  "wrap64 x = (x + 2 ^ 63) mod 2 ^ 64 - 2 ^ 63"

definition uint64 :: "int \<Rightarrow> int" where
  "uint64 x = x mod 2 ^ 64"

text \<open>Go's \<^verbatim>\<open>/\<close> and \<^verbatim>\<open>%\<close> on integers truncate towards zero.\<close>

definition go_quot :: "int \<Rightarrow> int \<Rightarrow> int" where
  "go_quot a b = sgn a * sgn b * (\<bar>a\<bar> div \<bar>b\<bar>)"

definition go_rem :: "int \<Rightarrow> int \<Rightarrow> int" where
  "go_rem a b = a - b * go_quot a b"

text \<open>
  \<^verbatim>\<open>t.Sub(u)\<close> for two wall-clock readings: the difference, or the nearest of
  \<^verbatim>\<open>minDuration\<close> and \<^verbatim>\<open>maxDuration\<close> when it does not fit.
\<close>

definition Sub :: "int \<Rightarrow> int \<Rightarrow> int" where
  "Sub t u =
     (let d = t - u in
      if d < minDuration then minDuration
      else if maxDuration < d then maxDuration
      else d)"

definition lessThanHalf :: "int \<Rightarrow> int \<Rightarrow> bool" where
  "lessThanHalf x y = ((uint64 x + uint64 x) mod 2 ^ 64 < uint64 y)"

text \<open>\<^verbatim>\<open>d.Round(m)\<close>: halfway values round away from zero.\<close>

definition Round :: "int \<Rightarrow> int \<Rightarrow> int" where
  "Round d m =
     (if m \<le> 0 then d
      else
        let r = go_rem d m in
        if d < 0 then
          (let r = - r in
           if lessThanHalf r m then wrap64 (d + r)
           else
             let d1 = wrap64 (d - m + r) in
             if d1 < d then d1 else minDuration)
        else if lessThanHalf r m then wrap64 (d - r)
        else
          let d1 = wrap64 (d + m - r) in
          if d1 > d then d1 else maxDuration)"

text \<open>\<^verbatim>\<open>%d\<close> of \<^verbatim>\<open>fmt.Sprintf\<close>: decimal digits, a minus sign before a negative.\<close>

definition digitChar :: "nat \<Rightarrow> char" where
  "digitChar n = ''0123456789'' ! n"

function fmtNat :: "nat \<Rightarrow> string" where
  "fmtNat n = (if n < 10 then [digitChar n] else fmtNat (n div 10) @ [digitChar (n mod 10)])"
  by pat_completeness auto
termination
  by (relation "measure id") auto

declare fmtNat.simps [simp del]

definition fmtInt :: "int \<Rightarrow> string" where
  "fmtInt i = (if i < 0 then CHR ''-'' # fmtNat (nat (- i)) else fmtNat (nat i))"

definition fmtDuration :: "int \<Rightarrow> string" where
  "fmtDuration d =
     (let h = go_quot d Hour;
          d = d - h * Hour;
          m = go_quot d Minute
      in fmtInt h @ '' hours '' @ fmtInt m @ '' minutes'')"

section \<open>The transform stage\<close>

text \<open>
  The body of the loop over \<^verbatim>\<open>query.Viewer.Repositories.Nodes\<close>. The struct literal
  reads \<^verbatim>\<open>repo.Refs.Edges[0]\<close> and then \<^verbatim>\<open>History.Edges[0]\<close> of that edge; either
  read panics on an empty slice.
\<close>

definition parseNode :: "int \<Rightarrow> repoNode \<Rightarrow> panicValue + latestProjectEntry" where
  "parseNode baseTime repo =
     (case RefsEdges repo of
        [] \<Rightarrow> Inl (IndexOutOfRange 0 0)
      | ref # _ \<Rightarrow>
          (case rn_HistoryEdges ref of
             [] \<Rightarrow> Inl (IndexOutOfRange 0 0)
           | c # _ \<Rightarrow>
               let entry = \<lparr>
                     RepoName = Name repo,
                     RepoUrl = Url repo,
                     RepoLang = PrimaryLanguageName repo,
                     BranchName = rn_Name ref,
                     BranchUrl = Url repo @ ''/tree/'' @ rn_Name ref,
                     CommitID = hn_AbbreviatedOid c,
                     CommitUrl = hn_CommitUrl c,
                     CommitAuthorID = hn_AuthorUserLogin c,
                     CommitAuthorUrl = hn_AuthorUserUrl c,
                     Time = [] \<rparr>;
                   durationTime = Round (Sub baseTime (PushedAt repo)) Minute;
                   entry = entry\<lparr>Time := fmtDuration durationTime\<rparr>;
                   entry = (if RepoLang entry = [] then entry\<lparr>RepoLang := ''unknown''\<rparr> else entry)
               in Inr entry))"

text \<open>The loop itself: \<^verbatim>\<open>result = append(result, entry)\<close>, stopped by the first panic.\<close>

fun parseResult :: "int \<Rightarrow> repoNode list \<Rightarrow> latestProjectEntry list \<Rightarrow> panicValue + latestProjectEntry list" where
  "parseResult baseTime [] result = Inr result"
| "parseResult baseTime (repo # rest) result =
     (case parseNode baseTime repo of
        Inl p \<Rightarrow> Inl p
      | Inr entry \<Rightarrow> parseResult baseTime rest (result @ [entry]))"

section \<open>The library's stable sort\<close>

text \<open>
  \<^verbatim>\<open>sort.SliceStable(x, less)\<close> of Go's standard library, on which the ordering stage
  rests: \<^verbatim>\<open>stable_func\<close> with its helpers \<^verbatim>\<open>insertionSort_func\<close>,
  \<^verbatim>\<open>symMerge_func\<close>, \<^verbatim>\<open>rotate_func\<close> and \<^verbatim>\<open>swapRange_func\<close>. The slice is the
  state, passed through; \<^verbatim>\<open>data.Less(i, j)\<close> reads the slice as it is at the moment of
  the call, because the closure given by \<^verbatim>\<open>fetchLatestProjects\<close> indexes the slice
  being sorted. Indices are \<^typ>\<open>nat\<close>: the library keeps every index within
  \<open>0 \<le> i < n\<close>. A loop of the library whose end depends on its arguments lies in
  the \<open>option\<close> monad, where \<open>None\<close> says that it does not return.
\<close>

type_synonym 'a lessFn = "'a list \<Rightarrow> nat \<Rightarrow> nat \<Rightarrow> bool"

definition swap :: "nat \<Rightarrow> nat \<Rightarrow> 'a list \<Rightarrow> 'a list" where
  "swap i j xs = xs[i := xs ! j, j := xs ! i]"

function insertionSort_inner :: "'a lessFn \<Rightarrow> nat \<Rightarrow> nat \<Rightarrow> 'a list \<Rightarrow> 'a list" where
  "insertionSort_inner lessf a j xs =
     (if a < j \<and> lessf xs j (j - 1)
      then insertionSort_inner lessf a (j - 1) (swap j (j - 1) xs)
      else xs)"
  by pat_completeness auto
termination
  by (relation "measure (\<lambda>(lessf, a, j, xs). j)") auto

declare insertionSort_inner.simps [simp del]

function insertionSort_outer :: "'a lessFn \<Rightarrow> nat \<Rightarrow> nat \<Rightarrow> nat \<Rightarrow> 'a list \<Rightarrow> 'a list" where
  "insertionSort_outer lessf a b i xs =
     (if i < b
      then insertionSort_outer lessf a b (i + 1) (insertionSort_inner lessf a i xs)
      else xs)"
  by pat_completeness auto
termination
  by (relation "measure (\<lambda>(lessf, a, b, i, xs). b - i)") auto

declare insertionSort_outer.simps [simp del]

definition insertionSort_func :: "'a lessFn \<Rightarrow> nat \<Rightarrow> nat \<Rightarrow> 'a list \<Rightarrow> 'a list" where
  "insertionSort_func lessf a b xs = insertionSort_outer lessf a b (a + 1) xs"

function swapRange_loop :: "nat \<Rightarrow> nat \<Rightarrow> nat \<Rightarrow> nat \<Rightarrow> 'a list \<Rightarrow> 'a list" where
  "swapRange_loop a b n i xs =
     (if i < n then swapRange_loop a b n (i + 1) (swap (a + i) (b + i) xs) else xs)"
  by pat_completeness auto
termination
  by (relation "measure (\<lambda>(a, b, n, i, xs). n - i)") auto

declare swapRange_loop.simps [simp del]

definition swapRange_func :: "nat \<Rightarrow> nat \<Rightarrow> nat \<Rightarrow> 'a list \<Rightarrow> 'a list" where
  "swapRange_func a b n xs = swapRange_loop a b n 0 xs"

text \<open>
  \<^verbatim>\<open>rotate_func(data, a, m, b)\<close> exchanges the blocks \<open>[a, m)\<close> and \<open>[m, b)\<close>. Its loop
  \<^verbatim>\<open>for i != j\<close> never ends when exactly one of the blocks is empty.
\<close>

partial_function (option) rotate_loop :: "nat \<Rightarrow> nat \<Rightarrow> nat \<Rightarrow> 'a list \<Rightarrow> (nat \<times> 'a list) option" where
  "rotate_loop m i j xs =
     (if i \<noteq> j then
        (if j < i
         then rotate_loop m (i - j) j (swapRange_func (m - i) m j xs)
         else rotate_loop m i (j - i) (swapRange_func (m - i) (m + j - i) i xs))
      else Some (i, xs))"

declare rotate_loop.simps [code]

definition rotate_func :: "nat \<Rightarrow> nat \<Rightarrow> nat \<Rightarrow> 'a list \<Rightarrow> 'a list option" where
  "rotate_func a m b xs =
     (case rotate_loop m (m - a) (b - m) xs of
        None \<Rightarrow> None
      | Some (i, xs') \<Rightarrow> Some (swapRange_func (m - i) m i xs'))"

text \<open>The three binary searches of \<^verbatim>\<open>symMerge_func\<close> and its two shifting loops.\<close>

function symMerge_searchLeft :: "'a lessFn \<Rightarrow> nat \<Rightarrow> nat \<Rightarrow> nat \<Rightarrow> 'a list \<Rightarrow> nat" where
  "symMerge_searchLeft lessf a i j xs =
     (if i < j then
        (let h = (i + j) div 2 in
         if lessf xs h a
         then symMerge_searchLeft lessf a (h + 1) j xs
         else symMerge_searchLeft lessf a i h xs)
      else i)"
  by pat_completeness auto
termination
  by (relation "measure (\<lambda>(lessf, a, i, j, xs). j - i)") auto

declare symMerge_searchLeft.simps [simp del]

function symMerge_shiftUp :: "nat \<Rightarrow> nat \<Rightarrow> 'a list \<Rightarrow> 'a list" where
  "symMerge_shiftUp i k xs =
     (if k < i - 1 then symMerge_shiftUp i (k + 1) (swap k (k + 1) xs) else xs)"
  by pat_completeness auto
termination
  by (relation "measure (\<lambda>(i, k, xs). i - k)") auto

declare symMerge_shiftUp.simps [simp del]

function symMerge_searchRight :: "'a lessFn \<Rightarrow> nat \<Rightarrow> nat \<Rightarrow> nat \<Rightarrow> 'a list \<Rightarrow> nat" where
  "symMerge_searchRight lessf m i j xs =
     (if i < j then
        (let h = (i + j) div 2 in
         if \<not> lessf xs m h
         then symMerge_searchRight lessf m (h + 1) j xs
         else symMerge_searchRight lessf m i h xs)
      else i)"
  by pat_completeness auto
termination
  by (relation "measure (\<lambda>(lessf, m, i, j, xs). j - i)") auto

declare symMerge_searchRight.simps [simp del]

function symMerge_shiftDown :: "nat \<Rightarrow> nat \<Rightarrow> 'a list \<Rightarrow> 'a list" where
  "symMerge_shiftDown i k xs =
     (if i < k then symMerge_shiftDown i (k - 1) (swap k (k - 1) xs) else xs)"
  by pat_completeness auto
termination
  by (relation "measure (\<lambda>(i, k, xs). k)") auto

declare symMerge_shiftDown.simps [simp del]

function symMerge_searchMid :: "'a lessFn \<Rightarrow> nat \<Rightarrow> nat \<Rightarrow> nat \<Rightarrow> 'a list \<Rightarrow> nat" where
  "symMerge_searchMid lessf p start r xs =
     (if start < r then
        (let c = (start + r) div 2 in
         if \<not> lessf xs (p - c) c
         then symMerge_searchMid lessf p (c + 1) r xs
         else symMerge_searchMid lessf p start c xs)
      else start)"
  by pat_completeness auto
termination
  by (relation "measure (\<lambda>(lessf, p, start, r, xs). r - start)") auto

declare symMerge_searchMid.simps [simp del]

text \<open>
  \<^verbatim>\<open>symMerge_func(data, a, m, b)\<close> merges the sorted runs \<open>[a, m)\<close> and \<open>[m, b)\<close> in
  place.
\<close>

function symMerge_func :: "'a lessFn \<Rightarrow> nat \<Rightarrow> nat \<Rightarrow> nat \<Rightarrow> 'a list \<Rightarrow> 'a list option" where
  "symMerge_func lessf a m b xs =
     (if m - a = 1 then
        (let i = symMerge_searchLeft lessf a m b xs
         in Some (symMerge_shiftUp i a xs))
      else if b - m = 1 then
        (let i = symMerge_searchRight lessf m a m xs
         in Some (symMerge_shiftDown i m xs))
      else
        (let mid = (a + b) div 2;
             n = mid + m;
             start0 = (if mid < m then n - b else a);
             r = (if mid < m then mid else m);
             p = n - 1;
             start = symMerge_searchMid lessf p start0 r xs;
             fin = n - start
         in
         Option.bind (if start < m \<and> m < fin then rotate_func start m fin xs else Some xs)
           (\<lambda>xs1.
         Option.bind (if a < start \<and> start < mid then symMerge_func lessf a start mid xs1 else Some xs1)
           (\<lambda>xs2.
         if mid < fin \<and> fin < b then symMerge_func lessf mid fin b xs2 else Some xs2))))"
  by pat_completeness auto
termination
proof (relation "measure (\<lambda>(lessf, a, m, b, xs). b - a)", goal_cases)
  case 1
  show ?case by simp
next
  case (2 lessf a m b xs mid n start0 r p start fin xs1)
  from 2(3) 2(11) have "mid - a < b - a" by linarith
  then show ?case by simp
next
  case (3 lessf a m b xs mid n start0 r p start fin xs1 xs2)
  from 3(3) 3(12) have "b - mid < b - a" by linarith
  then show ?case by simp
qed

declare symMerge_func.simps [simp del]

text \<open>\<^verbatim>\<open>stable_func(data, n)\<close>: insertion sort on blocks of 20, then rounds of merging.\<close>

partial_function (option) stable_blocks :: "'a lessFn \<Rightarrow> nat \<Rightarrow> nat \<Rightarrow> nat \<Rightarrow> nat \<Rightarrow> 'a list \<Rightarrow> (nat \<times> 'a list) option" where
  "stable_blocks lessf n blockSize a b xs =
     (if b \<le> n
      then stable_blocks lessf n blockSize b (b + blockSize) (insertionSort_func lessf a b xs)
      else Some (a, xs))"

declare stable_blocks.simps [code]

partial_function (option) stable_mergeRound :: "'a lessFn \<Rightarrow> nat \<Rightarrow> nat \<Rightarrow> nat \<Rightarrow> nat \<Rightarrow> 'a list \<Rightarrow> (nat \<times> 'a list) option" where
  "stable_mergeRound lessf n blockSize a b xs =
     (if b \<le> n
      then Option.bind (symMerge_func lessf a (a + blockSize) b xs)
             (\<lambda>xs1. stable_mergeRound lessf n blockSize b (b + 2 * blockSize) xs1)
      else Some (a, xs))"

declare stable_mergeRound.simps [code]

partial_function (option) stable_rounds :: "'a lessFn \<Rightarrow> nat \<Rightarrow> nat \<Rightarrow> 'a list \<Rightarrow> 'a list option" where
  "stable_rounds lessf n blockSize xs =
     (if blockSize < n then
        Option.bind (stable_mergeRound lessf n blockSize 0 (2 * blockSize) xs)
          (\<lambda>ax.
        Option.bind
          (if fst ax + blockSize < n
           then symMerge_func lessf (fst ax) (fst ax + blockSize) n (snd ax)
           else Some (snd ax))
          (\<lambda>xs2. stable_rounds lessf n (blockSize * 2) xs2))
      else Some xs)"

declare stable_rounds.simps [code]

definition stable_func :: "'a lessFn \<Rightarrow> nat \<Rightarrow> 'a list \<Rightarrow> 'a list option" where
  "stable_func lessf n xs =
     Option.bind (stable_blocks lessf n 20 0 20 xs)
       (\<lambda>ax. stable_rounds lessf n 20 (insertionSort_func lessf (fst ax) n (snd ax)))"

definition SliceStable :: "'a lessFn \<Rightarrow> 'a list \<Rightarrow> 'a list option" where
  "SliceStable lessf x = stable_func lessf (length x) x"

section \<open>The query and the ordering stage\<close>

text \<open>
  The world the process runs in. The server is a parameter \<open>client\<close>: what the \<open>k\<close>-th
  call of \<^verbatim>\<open>client.Query\<close> returns, an error's text or the decoded response; the world
  counts the calls made so far.

  Files are held by directory entry, not by the spelling of a path: \<open>Resolve\<close> is the
  kernel's path resolution, which takes \<^verbatim>\<open>README.md\<close> and \<^verbatim>\<open>./README.md\<close> to one entry,
  and \<open>Files\<close> gives the content of the file at an entry, if there is one. The kernel
  may refuse a call of package \<^verbatim>\<open>os\<close> for a reason that the files do not show (a
  permission, a directory in the way, a full disk, an I/O error): \<open>Denies\<close> gives the
  error of a call in a state of the files, if the kernel refuses it, and \<open>Written\<close> the
  count of bytes that a refused write has appended before it failed.
\<close>

datatype osError = ErrNotExist | ErrInvalid | ErrPermission | ErrOther string

datatype osCall = OpenFileCall string | WriteCall nat string | RenameCall string string

record world =
  Files :: "nat \<rightharpoonup> string"
  QueryCalls :: nat
  Resolve :: "string \<Rightarrow> nat"
  Denies :: "osCall \<Rightarrow> (nat \<rightharpoonup> string) \<Rightarrow> osError option"
  Written :: "osCall \<Rightarrow> (nat \<rightharpoonup> string) \<Rightarrow> nat"

datatype 'a outcome = Returns 'a | Panics panicValue | Hangs

text \<open>
  The constants of \<^verbatim>\<open>main.go\<close>. \<^verbatim>\<open>latestRepoCnt\<close> is the count the query asks the server
  for; nothing below relies on the server returning no more nodes than that.
\<close>

definition latestRepoCnt :: nat where "latestRepoCnt = 5"
definition enableSortByName :: bool where "enableSortByName = True"
definition originReadmeFile :: string where "originReadmeFile = ''./README-1.md''"

definition Query :: "(nat \<Rightarrow> string + queryData) \<Rightarrow> world \<Rightarrow> (string + queryData) \<times> world" where
  "Query client w = (client (QueryCalls w), w\<lparr>QueryCalls := QueryCalls w + 1\<rparr>)"

text \<open>
  The comparator handed to \<^verbatim>\<open>sort.SliceStable\<close>:
  \<^verbatim>\<open>result[i].CommitAuthorID == query.Viewer.Login && result[j].CommitAuthorID != query.Viewer.Login\<close>.
\<close>

definition lessByViewer :: "string \<Rightarrow> latestProjectEntry lessFn" where
  "lessByViewer login result i j =
     (CommitAuthorID (result ! i) = login \<and> CommitAuthorID (result ! j) \<noteq> login)"

text \<open>\<open>now\<close> is what \<^verbatim>\<open>time.Now()\<close> reads after the query has returned.\<close>

definition fetchLatestProjects ::
    "(nat \<Rightarrow> string + queryData) \<Rightarrow> int \<Rightarrow> world \<Rightarrow> latestProjectEntry list outcome \<times> world" where
  "fetchLatestProjects client now w =
     (case Query client w of
        (Inl err, w1) \<Rightarrow> (Panics (QueryFailed err), w1)
      | (Inr query, w1) \<Rightarrow>
          (case parseResult now (Nodes query) [] of
             Inl p \<Rightarrow> (Panics p, w1)
           | Inr result \<Rightarrow>
               if enableSortByName then
                 (case SliceStable (lessByViewer (ViewerLogin query)) result of
                    None \<Rightarrow> (Hangs, w1)
                  | Some result1 \<Rightarrow> (Returns result1, w1))
               else (Returns result, w1)))"

section \<open>The render stage\<close>

text \<open>
  The row template after \<^verbatim>\<open>Parse\<close>: literal text and field actions in turn. The
  template is the fixed text of \<^verbatim>\<open>markdownTableTmpl\<close>, so \<^verbatim>\<open>Parse\<close> succeeds, and
  \<^verbatim>\<open>Execute\<close> into a \<^verbatim>\<open>bytes.Buffer\<close> with a struct that has every field succeeds
  too: neither \<^verbatim>\<open>panic(err)\<close> of the loop is reached.
\<close>

datatype tmplNode = TextNode string | ActionNode "latestProjectEntry \<Rightarrow> string"

definition markdownTableTmpl :: "tmplNode list" where
  "markdownTableTmpl =
     [TextNode ''| ['', ActionNode RepoName, TextNode '']('',
      ActionNode RepoUrl,
      TextNode '') | ['', ActionNode BranchName, TextNode '']('',
      ActionNode BranchUrl,
      TextNode '') |['', ActionNode CommitID, TextNode '']('',
      ActionNode CommitUrl,
      TextNode '') | [@'', ActionNode CommitAuthorID, TextNode '']('',
      ActionNode CommitAuthorUrl,
      TextNode '') |'', ActionNode Time,
      TextNode '' | ![](https://img.shields.io/badge/language-'', ActionNode RepoLang,
      TextNode (''-default.svg?style=flat-square)|'' @ [CHR 0x0A])]"

definition markdownTableHeaderTmpl :: string where
  "markdownTableHeaderTmpl =
     [CHR 0x0A] @ ''| repo | branch | commit | author | time since | language |'' @ [CHR 0x0A]
     @ ''|:---:|:---:|:---:|:---:|:---:|:---:|'' @ [CHR 0x0A]"

text \<open>
  The template is an \<^verbatim>\<open>html/template\<close>. Its text has no tag, so every action stands in
  HTML text and its value goes through the library's \<^verbatim>\<open>htmlEscaper\<close>, which replaces
  the bytes of \<^verbatim>\<open>htmlReplacementTable\<close> and copies every other byte.
\<close>

definition htmlReplacementTable :: "char \<Rightarrow> string" where
  "htmlReplacementTable c =
     (if c = CHR 0x00 then [CHR 0xEF, CHR 0xBF, CHR 0xBD]
      else if c = CHR 0x22 then ''&#34;''
      else if c = CHR ''&'' then ''&amp;''
      else if c = CHR 0x27 then ''&#39;''
      else if c = CHR ''+'' then ''&#43;''
      else if c = CHR ''<'' then ''&lt;''
      else if c = CHR ''>'' then ''&gt;''
      else [])"

fun htmlReplacer :: "string \<Rightarrow> string" where
  "htmlReplacer [] = []"
| "htmlReplacer (c # s) =
     (if htmlReplacementTable c \<noteq> [] then htmlReplacementTable c @ htmlReplacer s
      else c # htmlReplacer s)"

definition htmlEscaper :: "string \<Rightarrow> string" where
  "htmlEscaper s = htmlReplacer s"

fun Execute :: "tmplNode list \<Rightarrow> latestProjectEntry \<Rightarrow> string" where
  "Execute [] v = []"
| "Execute (TextNode t # ns) v = t @ Execute ns v"
| "Execute (ActionNode f # ns) v = htmlEscaper (f v) @ Execute ns v"

text \<open>The loop \<^verbatim>\<open>for _, v := range r\<close> of \<^verbatim>\<open>main\<close>, writing to \<^verbatim>\<open>buf\<close>.\<close>

fun renderLoop :: "latestProjectEntry list \<Rightarrow> string \<Rightarrow> string" where
  "renderLoop [] buf = buf"
| "renderLoop (v # r) buf = renderLoop r (buf @ Execute markdownTableTmpl v)"

section \<open>The write stage\<close>

text \<open>
  The calls of package \<^verbatim>\<open>os\<close> that \<^verbatim>\<open>main\<close> makes. A file handle is the entry of the
  file it was opened at, \<open>None\<close> is the nil \<^verbatim>\<open>*os.File\<close>. \<^verbatim>\<open>OpenFile\<close> is called with
  \<^verbatim>\<open>O_WRONLY|O_APPEND\<close> and no \<^verbatim>\<open>O_CREATE\<close>: a missing file is an error, as is a file
  that the kernel refuses to open, and the handle is nil then. The methods of a nil
  \<^verbatim>\<open>*os.File\<close> return \<^verbatim>\<open>ErrInvalid\<close> before any system call; they do not panic. A write
  appends its bytes, or the first of them when the kernel fails it. \<^verbatim>\<open>Rename\<close> moves
  the file to the target's entry, replacing what was there.
\<close>

definition OpenFile :: "string \<Rightarrow> world \<Rightarrow> nat option \<times> osError option" where
  "OpenFile name w =
     (case Files w (Resolve w name) of
        None \<Rightarrow> (None, Some ErrNotExist)
      | Some content \<Rightarrow>
          (case Denies w (OpenFileCall name) (Files w) of
             Some err \<Rightarrow> (None, Some err)
           | None \<Rightarrow> (Some (Resolve w name), None)))"

definition WriteString :: "nat option \<Rightarrow> string \<Rightarrow> world \<Rightarrow> osError option \<times> world" where
  "WriteString f s w =
     (case f of
        None \<Rightarrow> (Some ErrInvalid, w)
      | Some entry \<Rightarrow>
          (case Files w entry of
             None \<Rightarrow> (Some ErrNotExist, w)
           | Some content \<Rightarrow>
               (case Denies w (WriteCall entry s) (Files w) of
                  Some err \<Rightarrow>
                    (Some err,
                     w\<lparr>Files := (Files w)(entry \<mapsto>
                          content @ take (Written w (WriteCall entry s) (Files w)) s)\<rparr>)
                | None \<Rightarrow> (None, w\<lparr>Files := (Files w)(entry \<mapsto> content @ s)\<rparr>))))"

definition Rename :: "string \<Rightarrow> string \<Rightarrow> world \<Rightarrow> osError option \<times> world" where
  "Rename oldpath newpath w =
     (case Files w (Resolve w oldpath) of
        None \<Rightarrow> (Some ErrNotExist, w)
      | Some content \<Rightarrow>
          (case Denies w (RenameCall oldpath newpath) (Files w) of
             Some err \<Rightarrow> (Some err, w)
           | None \<Rightarrow>
               (None,
                w\<lparr>Files := ((Files w)(Resolve w oldpath := None))(Resolve w newpath \<mapsto> content)\<rparr>)))"

text \<open>
  \<^verbatim>\<open>main\<close>. Every error of the write stage is assigned to \<^verbatim>\<open>_\<close>. The deferred
  \<^verbatim>\<open>f.Close()\<close> changes no file's content and is left out.
\<close>

definition main :: "(nat \<Rightarrow> string + queryData) \<Rightarrow> int \<Rightarrow> world \<Rightarrow> unit outcome \<times> world" where
  "main client now w =
     (case fetchLatestProjects client now w of
        (Panics p, w1) \<Rightarrow> (Panics p, w1)
      | (Hangs, w1) \<Rightarrow> (Hangs, w1)
      | (Returns r, w1) \<Rightarrow>
          (let buf = renderLoop r [];
               f = fst (OpenFile originReadmeFile w1);
               w2 = snd (WriteString f markdownTableHeaderTmpl w1);
               w3 = snd (WriteString f buf w2);
               w4 = snd (Rename originReadmeFile ''README.md'' w3)
           in (Returns (), w4)))"

section \<open>Notions of the specification\<close>



text \<open>
  A repository node with no branch, or whose first branch has no commit: the empty edge
  arrays of the specification.
\<close>

definition lacksCommit :: "repoNode \<Rightarrow> bool" where
  "lacksCommit repo =
     (case RefsEdges repo of [] \<Rightarrow> True | ref # _ \<Rightarrow> rn_HistoryEdges ref = [])"

text \<open>
  The row the specification describes: the fields put into the row template as they
  are, with no escaping.
\<close>

fun Substitute :: "tmplNode list \<Rightarrow> latestProjectEntry \<Rightarrow> string" where
  "Substitute [] v = []"
| "Substitute (TextNode t # ns) v = t @ Substitute ns v"
| "Substitute (ActionNode f # ns) v = f v @ Substitute ns v"

text \<open>
  The bytes of a rendered row, written out: the text of the row template with each field
  in its place, escaped.
\<close>

definition tableRow :: "latestProjectEntry \<Rightarrow> string" where
  "tableRow v =
     ''| ['' @ htmlEscaper (RepoName v) @ '']('' @ htmlEscaper (RepoUrl v)
     @ '') | ['' @ htmlEscaper (BranchName v) @ '']('' @ htmlEscaper (BranchUrl v)
     @ '') |['' @ htmlEscaper (CommitID v) @ '']('' @ htmlEscaper (CommitUrl v)
     @ '') | [@'' @ htmlEscaper (CommitAuthorID v) @ '']('' @ htmlEscaper (CommitAuthorUrl v)
     @ '') |'' @ htmlEscaper (Time v)
     @ '' | ![](https://img.shields.io/badge/language-'' @ htmlEscaper (RepoLang v)
     @ ''-default.svg?style=flat-square)|'' @ [CHR 0x0A]"

text \<open>
  A successful run of the write stage is one in which each of the four errors that
  \<^verbatim>\<open>main\<close> assigns to \<^verbatim>\<open>_\<close> is nil. These are the four, in the order of the calls, for
  the records \<open>r\<close> and the world \<open>w1\<close> that \<^verbatim>\<open>fetchLatestProjects\<close> has left.
\<close>

definition writeStageErrors :: "latestProjectEntry list \<Rightarrow> world \<Rightarrow> osError option list" where
  "writeStageErrors r w1 =
     (let buf = renderLoop r [];
          opened = OpenFile originReadmeFile w1;
          header = WriteString (fst opened) markdownTableHeaderTmpl w1;
          rows = WriteString (fst opened) buf (snd header);
          renamed = Rename originReadmeFile ''README.md'' (snd rows)
      in [snd opened, fst header, fst rows, fst renamed])"

text \<open>The bytes that \<^verbatim>\<open>htmlEscaper\<close> replaces, and a record free of them.\<close>

definition htmlSpecial :: "char \<Rightarrow> bool" where
  "htmlSpecial c =
     (c \<in> set [CHR 0x00, CHR 0x22, CHR ''&'', CHR 0x27, CHR ''+'', CHR ''<'', CHR ''>''])"

definition entryFields :: "latestProjectEntry \<Rightarrow> string list" where
  "entryFields v =
     [RepoName v, RepoUrl v, RepoLang v, BranchName v, BranchUrl v, CommitID v, CommitUrl v,
      CommitAuthorID v, CommitAuthorUrl v, Time v]"

definition plainEntry :: "latestProjectEntry \<Rightarrow> bool" where
  "plainEntry v = list_all (\<lambda>s. list_all (\<lambda>c. \<not> htmlSpecial c) s) (entryFields v)"

text \<open>
  The order the specification asks of the ordering stage, for a predicate \<open>P\<close> that says
  which records are the viewer's: those records first, the others after them, each group
  in its order of the input. \<open>lessP P\<close> is the comparator that ranks a member of \<open>P\<close>
  before a non-member, \<open>psorted P\<close> says that no non-member stands before a member, and
  \<open>blocked P k\<close> is a list whose consecutive blocks of \<open>k\<close> elements are each in that order.
\<close>

definition lessP :: "('a \<Rightarrow> bool) \<Rightarrow> 'a lessFn" where
  "lessP P xs i j = (P (xs ! i) \<and> \<not> P (xs ! j))"

definition stablePart :: "('a \<Rightarrow> bool) \<Rightarrow> 'a list \<Rightarrow> 'a list" where
  "stablePart P xs = filter P xs @ filter (\<lambda>x. \<not> P x) xs"

fun psorted :: "('a \<Rightarrow> bool) \<Rightarrow> 'a list \<Rightarrow> bool" where
  "psorted P [] = True"
| "psorted P (x # xs) = ((P x \<or> list_all (\<lambda>y. \<not> P y) xs) \<and> psorted P xs)"

function blocked :: "('a \<Rightarrow> bool) \<Rightarrow> nat \<Rightarrow> 'a list \<Rightarrow> 'a list" where
  "blocked P k xs =
     (if k = 0 \<or> xs = [] then xs else stablePart P (take k xs) @ blocked P k (drop k xs))"
  by pat_completeness auto
termination
  by (relation "measure (\<lambda>(P, k, xs). length xs)") auto

declare blocked.simps [simp del]

section \<open>Example data\<close>

definition exampleCommit :: "string \<Rightarrow> historyNode" where
  "exampleCommit login =
     \<lparr>hn_CommitUrl = ''https://github.com/alice/foo/commit/abc123d'', hn_AbbreviatedOid = ''abc123d'',
      hn_AuthorUserLogin = login, hn_AuthorUserUrl = ''https://github.com/'' @ login\<rparr>"

definition exampleRepo :: "string \<Rightarrow> string \<Rightarrow> string \<Rightarrow> int \<Rightarrow> repoNode" where
  "exampleRepo name lang login pushed =
     \<lparr>Name = name, Description = [], Url = ''https://github.com/alice/'' @ name,
      PrimaryLanguageName = lang, PushedAt = pushed, IsFork = False,
      RefsEdges = [\<lparr>rn_Name = ''main'', rn_HistoryEdges = [exampleCommit login]\<rparr>]\<rparr>"

definition exampleQuery :: queryData where
  "exampleQuery =
     \<lparr>ViewerLogin = ''alice'',
      Nodes = [exampleRepo ''foo'' ''Go'' ''bob'' 0, exampleRepo ''bar'' [] ''alice'' 0,
               exampleRepo ''baz'' ''C++'' ''carol'' 0]\<rparr>"

definition exampleRow :: "string \<Rightarrow> string \<Rightarrow> string \<Rightarrow> latestProjectEntry" where
  "exampleRow name lang login =
     \<lparr>RepoName = name, RepoUrl = ''https://github.com/alice/'' @ name, RepoLang = lang,
      BranchName = ''main'', BranchUrl = ''https://github.com/alice/'' @ name @ ''/tree/main'',
      CommitID = ''abc123d'', CommitUrl = ''https://github.com/alice/foo/commit/abc123d'',
      CommitAuthorID = login, CommitAuthorUrl = ''https://github.com/'' @ login,
      Time = ''3 hours 0 minutes''\<rparr>"

text \<open>What the example query gives three hours after the pushes, before and after the ordering.\<close>

definition exampleParsed :: "latestProjectEntry list" where
  "exampleParsed =
     [exampleRow ''foo'' ''Go'' ''bob'', exampleRow ''bar'' ''unknown'' ''alice'',
      exampleRow ''baz'' ''C++'' ''carol'']"

definition exampleResult :: "latestProjectEntry list" where
  "exampleResult =
     [exampleRow ''bar'' ''unknown'' ''alice'', exampleRow ''foo'' ''Go'' ''bob'',
      exampleRow ''baz'' ''C++'' ''carol'']"

definition emptyRepo :: repoNode where
  "emptyRepo = \<lparr>Name = ''new'', Description = [], Url = ''https://github.com/alice/new'',
      PrimaryLanguageName = [], PushedAt = 0, IsFork = False, RefsEdges = []\<rparr>"

definition noCommitRepo :: repoNode where
  "noCommitRepo = \<lparr>Name = ''bare'', Description = [], Url = ''https://github.com/alice/bare'',
      PrimaryLanguageName = [], PushedAt = 0, IsFork = False,
      RefsEdges = [\<lparr>rn_Name = ''main'', rn_HistoryEdges = []\<rparr>]\<rparr>"

definition exampleEntry :: latestProjectEntry where
  "exampleEntry =
     \<lparr>RepoName = ''foo'', RepoUrl = ''https://github.com/alice/foo'', RepoLang = ''Go'',
      BranchName = ''main'', BranchUrl = ''https://github.com/alice/foo/tree/main'',
      CommitID = ''abc123'', CommitUrl = ''https://github.com/alice/foo/commit/abc123'',
      CommitAuthorID = ''alice'', CommitAuthorUrl = ''https://github.com/alice'',
      Time = ''3 hours 15 minutes''\<rparr>"

definition cppEntry :: latestProjectEntry where
  "cppEntry = exampleEntry\<lparr>RepoLang := ''C++''\<rparr>"

text \<open>
  A working directory with the entries 0 for \<^verbatim>\<open>README.md\<close> and 1 for \<^verbatim>\<open>README-1.md\<close>,
  under either spelling, and a kernel that refuses nothing. In \<open>exampleWorld\<close> the staging
  file is there, in \<open>emptyWorld\<close> it is not, and in \<open>lockedWorld\<close> it is there and the
  kernel refuses to open it.
\<close>

definition exampleResolve :: "string \<Rightarrow> nat" where
  "exampleResolve path =
     (if path = ''README.md'' \<or> path = ''./README.md'' then 0
      else if path = ''README-1.md'' \<or> path = ''./README-1.md'' then 1
      else 2)"

definition exampleWorld :: world where
  "exampleWorld =
     \<lparr>Files = [1 \<mapsto> ''# Hi''], QueryCalls = 0, Resolve = exampleResolve,
      Denies = (\<lambda>call files. None), Written = (\<lambda>call files. 0)\<rparr>"

definition emptyWorld :: world where
  "emptyWorld = exampleWorld\<lparr>Files := Map.empty\<rparr>"

definition lockedWorld :: world where
  "lockedWorld =
     exampleWorld\<lparr>Denies := (\<lambda>call files.
       case call of OpenFileCall path \<Rightarrow> Some ErrPermission | _ \<Rightarrow> None)\<rparr>"



section \<open>Properties of the transform stage\<close>

lemma parseNode_RepoLang:
  "parseNode now repo = Inr entry \<Longrightarrow>
     RepoLang entry = (if PrimaryLanguageName repo = [] then ''unknown'' else PrimaryLanguageName repo)"
  by (auto simp: parseNode_def Let_def split: list.splits if_splits)

lemma parseResult_RepoLang:
  "parseResult now nodes acc = Inr result \<Longrightarrow>
     map RepoLang result =
       map RepoLang acc @
       map (\<lambda>repo. if PrimaryLanguageName repo = [] then ''unknown'' else PrimaryLanguageName repo) nodes"
proof (induction nodes arbitrary: acc)
  case Nil
  then show ?case by simp
next
  case (Cons repo rest)
  from Cons.prems obtain entry where e: "parseNode now repo = Inr entry"
      and r: "parseResult now rest (acc @ [entry]) = Inr result"
    by (auto split: sum.splits)
  from Cons.IH [OF r] parseNode_RepoLang [OF e] show ?case by simp
qed

lemma exampleQuery_parse:
  "parseResult (3 * Hour) (Nodes exampleQuery) [] = Inr exampleParsed"
  by code_simp

text \<open>
  Claim C5. Whenever the transform loop returns, the language fields of the display
  records are, node by node, the node's primary-language name, with \<open>''unknown''\<close> in
  the place of an empty name.
\<close>

theorem language_default:
  "parseResult now nodes [] = Inr result \<Longrightarrow>
     map RepoLang result =
       map (\<lambda>repo. if PrimaryLanguageName repo = [] then ''unknown'' else PrimaryLanguageName repo) nodes"
  using parseResult_RepoLang [of now nodes "[]" result] by simp

theorem language_default_witness:
  "parseResult (3 * Hour) (Nodes exampleQuery) [] = Inr exampleParsed
     \<and> map RepoLang exampleParsed = [''Go'', ''unknown'', ''C++'']"
  using language_default [OF exampleQuery_parse] exampleQuery_parse
  by (simp add: exampleQuery_def exampleRepo_def)



















section \<open>Properties of the library's stable sort\<close>

text \<open>
  The sort is followed on a list given by its pieces: a prefix, the blocks at work, a
  suffix. For the comparator \<open>lessP P\<close> every helper is shown to put such a block into
  the order \<open>stablePart P\<close>, and \<^verbatim>\<open>sort.SliceStable\<close> to return \<open>stablePart P\<close> of the
  whole list.
\<close>

lemma swap_adjacent:
  "length A = k \<Longrightarrow> swap (Suc k) k (A @ y # x # B) = A @ x # y # B"
  by (simp add: swap_def nth_append list_update_append)

lemma swap_adjacent': 
  "length A = k \<Longrightarrow> swap k (Suc k) (A @ y # x # B) = A @ x # y # B"
  by (simp add: swap_def nth_append list_update_append)

lemma swap_apart:
  "length A = p \<Longrightarrow> q = p + 1 + length C \<Longrightarrow>
     swap p q (A @ x # C @ y # B) = A @ y # C @ x # B"
  by (simp add: swap_def nth_append list_update_append)

lemma stablePart_Nil [simp]: "stablePart P [] = []"
  by (simp add: stablePart_def)

lemma stablePart_single [simp]: "stablePart P [x] = [x]"
  by (simp add: stablePart_def)

lemma filter_stablePart [simp]:
  "filter P (stablePart P xs) = filter P xs"
  "filter (\<lambda>x. \<not> P x) (stablePart P xs) = filter (\<lambda>x. \<not> P x) xs"
  by (simp_all add: stablePart_def)

lemma stablePart_append_left: "stablePart P (stablePart P xs @ ys) = stablePart P (xs @ ys)"
  by (simp add: stablePart_def)

lemma stablePart_append_right: "stablePart P (xs @ stablePart P ys) = stablePart P (xs @ ys)"
  by (simp add: stablePart_def)

lemma stablePart_idem [simp]: "stablePart P (stablePart P xs) = stablePart P xs"
  by (simp add: stablePart_def)

lemma length_stablePart [simp]: "length (stablePart P xs) = length xs"
  using sum_length_filter_compl [of P xs] by (simp add: stablePart_def)

lemma psorted_all: "list_all P xs \<Longrightarrow> psorted P xs"
  by (induction xs) auto

lemma psorted_none: "list_all (\<lambda>x. \<not> P x) xs \<Longrightarrow> psorted P xs"
  by (induction xs) auto

lemma psorted_append:
  "psorted P (xs @ ys) \<longleftrightarrow>
     psorted P xs \<and> psorted P ys \<and> (list_all P xs \<or> list_all (\<lambda>x. \<not> P x) ys)"
  by (induction xs) (auto simp: psorted_none)

lemma psorted_stablePart [simp]: "psorted P (stablePart P xs)"
  by (simp add: stablePart_def psorted_append psorted_all psorted_none list_all_iff)

lemma stablePart_psorted: "psorted P xs \<Longrightarrow> stablePart P xs = xs"
  by (induction xs) (auto simp: stablePart_def list_all_iff filter_empty_conv filter_id_conv)

lemma psorted_nth:
  "psorted P xs \<Longrightarrow> i \<le> j \<Longrightarrow> j < length xs \<Longrightarrow> P (xs ! j) \<Longrightarrow> P (xs ! i)"
proof (induction xs arbitrary: i j)
  case Nil
  then show ?case by simp
next
  case (Cons x xs)
  show ?case
  proof (cases i)
    case 0
    with Cons.prems show ?thesis by (cases j) (auto simp: list_all_length)
  next
    case (Suc i')
    with Cons.prems obtain j' where "j = Suc j'" by (cases j) auto
    with Suc Cons.prems Cons.IH [of i' j'] show ?thesis by simp
  qed
qed

text \<open>\<^verbatim>\<open>insertionSort_func\<close> orders the block \<open>[a, b)\<close>.\<close>

lemma insertionSort_inner_part:
  "psorted P S \<Longrightarrow> length A = a \<Longrightarrow> j = a + length S \<Longrightarrow>
     insertionSort_inner (lessP P) a j (A @ S @ x # rest) = A @ stablePart P (S @ [x]) @ rest"
proof (induction S arbitrary: j rest rule: rev_induct)
  case Nil
  then show ?case by (simp add: insertionSort_inner.simps)
next
  case (snoc y S)
  from snoc.prems have S: "psorted P S" by (simp add: psorted_append)
  have j: "j = Suc (a + length S)" using snoc.prems by simp
  have nth_j: "(A @ (S @ [y]) @ x # rest) ! j = x"
    using snoc.prems by (simp add: nth_append)
  have nth_j1: "(A @ (S @ [y]) @ x # rest) ! (j - 1) = y"
    using snoc.prems by (simp add: nth_append)
  show ?case
  proof (cases "P x \<and> \<not> P y")
    case True
    have sw: "swap j (j - 1) (A @ (S @ [y]) @ x # rest) = A @ S @ x # (y # rest)"
      using swap_adjacent [of "A @ S" "a + length S" y x rest] snoc.prems by (simp add: j)
    have "insertionSort_inner (lessP P) a j (A @ (S @ [y]) @ x # rest)
        = insertionSort_inner (lessP P) a (j - 1) (A @ S @ x # (y # rest))"
      using True nth_j nth_j1 sw j
      by (subst insertionSort_inner.simps) (simp add: lessP_def)
    also have "\<dots> = A @ stablePart P (S @ [x]) @ y # rest"
      using snoc.IH [OF S snoc.prems(2), of "j - 1" "y # rest"] j by simp
    also have "\<dots> = A @ stablePart P ((S @ [y]) @ [x]) @ rest"
      using True by (simp add: stablePart_def)
    finally show ?thesis .
  next
    case False
    have "insertionSort_inner (lessP P) a j (A @ (S @ [y]) @ x # rest) = A @ (S @ [y]) @ x # rest"
      using False nth_j nth_j1
      by (subst insertionSort_inner.simps) (auto simp: lessP_def)
    moreover have "psorted P ((S @ [y]) @ [x])"
      using False snoc.prems(1) by (auto simp: psorted_append)
    ultimately show ?thesis using stablePart_psorted [of P "(S @ [y]) @ [x]"] by simp
  qed
qed

lemma insertionSort_outer_part:
  "psorted P S \<Longrightarrow> length A = a \<Longrightarrow> i = a + length S \<Longrightarrow> b = i + length R \<Longrightarrow>
     insertionSort_outer (lessP P) a b i (A @ S @ R @ B) = A @ stablePart P (S @ R) @ B"
proof (induction R arbitrary: S i)
  case Nil
  then show ?case by (simp add: insertionSort_outer.simps stablePart_psorted)
next
  case (Cons x R)
  have "insertionSort_outer (lessP P) a b i (A @ S @ (x # R) @ B)
      = insertionSort_outer (lessP P) a b (i + 1) (A @ stablePart P (S @ [x]) @ R @ B)"
    using Cons.prems insertionSort_inner_part [of P S A a i x "R @ B"]
    by (subst insertionSort_outer.simps) simp
  also have "\<dots> = A @ stablePart P (stablePart P (S @ [x]) @ R) @ B"
    using Cons.prems by (intro Cons.IH) simp_all
  finally show ?case by (simp add: stablePart_append_left)
qed

lemma insertionSort_func_part:
  assumes "length A = a" and "b = a + length S"
  shows "insertionSort_func (lessP P) a b (A @ S @ B) = A @ stablePart P S @ B"
proof (cases S)
  case Nil
  with assms show ?thesis by (simp add: insertionSort_func_def insertionSort_outer.simps)
next
  case (Cons x R)
  with assms insertionSort_outer_part [of P "[x]" A a "a + 1" b R B] show ?thesis
    by (simp add: insertionSort_func_def)
qed

text \<open>
  \<^verbatim>\<open>swapRange_func\<close> exchanges two blocks of equal length, and \<^verbatim>\<open>rotate_func\<close> two
  adjacent blocks of any lengths: when neither is empty, its loop ends.
\<close>

lemma swapRange_loop_blocks:
  "length X = length Y \<Longrightarrow> length A = a + i \<Longrightarrow> b = a + length X + length M \<Longrightarrow>
   n = i + length X \<Longrightarrow>
     swapRange_loop a b n i (A @ X @ M @ Y @ B) = A @ Y @ M @ X @ B"
proof (induction X Y arbitrary: A M i rule: list_induct2)
  case Nil
  then show ?case by (simp add: swapRange_loop.simps)
next
  case (Cons x X y Y)
  have sw: "swap (a + i) (b + i) (A @ (x # X) @ M @ (y # Y) @ B) = A @ y # (X @ M) @ x # Y @ B"
    using swap_apart [of A "a + i" "b + i" "X @ M" x y "Y @ B"] Cons.prems by simp
  have "swapRange_loop a b n i (A @ (x # X) @ M @ (y # Y) @ B)
      = swapRange_loop a b n (i + 1) ((A @ [y]) @ X @ (M @ [x]) @ Y @ B)"
    using Cons.prems sw by (subst swapRange_loop.simps) simp
  also have "\<dots> = (A @ [y]) @ Y @ (M @ [x]) @ X @ B"
    using Cons.prems Cons.hyps by (intro Cons.IH) simp_all
  finally show ?case by simp
qed

lemma swapRange_func_blocks:
  assumes "length X = n" and "length Y = n" and "length A = a" and "b = a + n + length M"
  shows "swapRange_func a b n (A @ X @ M @ Y @ B) = A @ Y @ M @ X @ B"
proof -
  have "swapRange_loop a b n 0 (A @ X @ M @ Y @ B) = A @ Y @ M @ X @ B"
    using assms by (intro swapRange_loop_blocks) simp_all
  then show ?thesis by (simp add: swapRange_func_def)
qed

lemma rotate_blocks:
  "length U = i \<Longrightarrow> length V = j \<Longrightarrow> 0 < i \<Longrightarrow> 0 < j \<Longrightarrow> m = length A + i \<Longrightarrow>
     (case rotate_loop m i j (A @ U @ V @ B) of
        None \<Rightarrow> None
      | Some (i', xs') \<Rightarrow> Some (swapRange_func (m - i') m i' xs'))
     = Some (A @ V @ U @ B)"
proof (induction "i + j" arbitrary: i j U V A B rule: less_induct)
  case less
  show ?case
  proof (cases "i = j")
    case True
    with less.prems swapRange_func_blocks [of U i V A "m - i" m "[]" B] show ?thesis
      by (subst rotate_loop.simps) simp
  next
    case False
    show ?thesis
    proof (cases "j < i")
      case True
      define U1 where "U1 = take j U"
      define U2 where "U2 = drop j U"
      have U: "U = U1 @ U2" and lU1: "length U1 = j" and lU2: "length U2 = i - j"
        using True less.prems by (simp_all add: U1_def U2_def)
      have sr: "swapRange_func (m - i) m j (A @ U @ V @ B) = (A @ V) @ U2 @ U1 @ B"
        using swapRange_func_blocks [of U1 j V A "m - i" m U2 B] less.prems lU1 lU2 True
        by (simp add: U)
      have "rotate_loop m i j (A @ U @ V @ B) = rotate_loop m (i - j) j ((A @ V) @ U2 @ U1 @ B)"
        using True False sr by (subst rotate_loop.simps) simp
      moreover have "(case rotate_loop m (i - j) j ((A @ V) @ U2 @ U1 @ B) of
            None \<Rightarrow> None
          | Some (i', xs') \<Rightarrow> Some (swapRange_func (m - i') m i' xs'))
          = Some ((A @ V) @ U1 @ U2 @ B)"
        using True less.prems lU1 lU2 by (intro less.hyps) simp_all
      ultimately show ?thesis by (simp add: U)
    next
      case nlt: False
      with False have lt: "i < j" by simp
      define V1 where "V1 = take (j - i) V"
      define V2 where "V2 = drop (j - i) V"
      have V: "V = V1 @ V2" and lV1: "length V1 = j - i" and lV2: "length V2 = i"
        using lt less.prems by (simp_all add: V1_def V2_def)
      have sr: "swapRange_func (m - i) (m + j - i) i (A @ U @ V @ B) = A @ V2 @ V1 @ U @ B"
        using swapRange_func_blocks [of U i V2 A "m - i" "m + j - i" V1 B] less.prems lV1 lV2 lt
        by (simp add: V)
      have "rotate_loop m i j (A @ U @ V @ B) = rotate_loop m i (j - i) (A @ V2 @ V1 @ (U @ B))"
        using nlt False sr by (subst rotate_loop.simps) simp
      moreover have "(case rotate_loop m i (j - i) (A @ V2 @ V1 @ (U @ B)) of
            None \<Rightarrow> None
          | Some (i', xs') \<Rightarrow> Some (swapRange_func (m - i') m i' xs'))
          = Some (A @ V1 @ V2 @ (U @ B))"
        using lt less.prems lV1 lV2 by (intro less.hyps) simp_all
      ultimately show ?thesis by (simp add: V)
    qed
  qed
qed

lemma rotate_func_blocks:
  assumes "length A = a" and "m = a + length U" and "b = m + length V" and "U \<noteq> []" and "V \<noteq> []"
  shows "rotate_func a m b (A @ U @ V @ B) = Some (A @ V @ U @ B)"
proof -
  have "(case rotate_loop m (length U) (length V) (A @ U @ V @ B) of
        None \<Rightarrow> None
      | Some (i', xs') \<Rightarrow> Some (swapRange_func (m - i') m i' xs'))
     = Some (A @ V @ U @ B)"
    using assms by (intro rotate_blocks) simp_all
  moreover have "m - a = length U" "b - m = length V" using assms by simp_all
  ultimately show ?thesis by (simp add: rotate_func_def)
qed

text \<open>
  Each binary search returns the boundary of its range, when the comparison holds on one
  side of the boundary and fails on the other; each shifting loop moves one element past
  a block.
\<close>

lemma symMerge_searchLeft_eq:
  "i \<le> k \<Longrightarrow> k \<le> j \<Longrightarrow> (\<forall>h. i \<le> h \<and> h < k \<longrightarrow> lessf xs h a) \<Longrightarrow>
   (\<forall>h. k \<le> h \<and> h < j \<longrightarrow> \<not> lessf xs h a) \<Longrightarrow>
     symMerge_searchLeft lessf a i j xs = k"
proof (induction lessf a i j xs rule: symMerge_searchLeft.induct)
  case (1 lessf a i j xs)
  show ?case
  proof (cases "i < j")
    case False
    with "1.prems" show ?thesis by (subst symMerge_searchLeft.simps) simp
  next
    case True
    define h where "h = (i + j) div 2"
    have h: "i \<le> h" "h < j" using True by (simp_all add: h_def)
    show ?thesis
    proof (cases "lessf xs h a")
      case l: True
      with "1.prems" h have "h < k" by (meson not_le_imp_less)
      with "1.prems" h have "symMerge_searchLeft lessf a (h + 1) j xs = k"
        by (intro "1.IH"(1) [OF True h_def l]) auto
      with True l show ?thesis by (subst symMerge_searchLeft.simps) (simp add: h_def Let_def)
    next
      case l: False
      with "1.prems" h have "k \<le> h" by (meson not_le_imp_less)
      with "1.prems" h have "symMerge_searchLeft lessf a i h xs = k"
        by (intro "1.IH"(2) [OF True h_def l]) auto
      with True l show ?thesis by (subst symMerge_searchLeft.simps) (simp add: h_def Let_def)
    qed
  qed
qed

lemma symMerge_searchRight_eq:
  "i \<le> k \<Longrightarrow> k \<le> j \<Longrightarrow> (\<forall>h. i \<le> h \<and> h < k \<longrightarrow> \<not> lessf xs m h) \<Longrightarrow>
   (\<forall>h. k \<le> h \<and> h < j \<longrightarrow> lessf xs m h) \<Longrightarrow>
     symMerge_searchRight lessf m i j xs = k"
proof (induction lessf m i j xs rule: symMerge_searchRight.induct)
  case (1 lessf m i j xs)
  show ?case
  proof (cases "i < j")
    case False
    with "1.prems" show ?thesis by (subst symMerge_searchRight.simps) simp
  next
    case True
    define h where "h = (i + j) div 2"
    have h: "i \<le> h" "h < j" using True by (simp_all add: h_def)
    show ?thesis
    proof (cases "lessf xs m h")
      case l: False
      with "1.prems" h have "h < k" by (meson not_le_imp_less)
      with "1.prems" h have "symMerge_searchRight lessf m (h + 1) j xs = k"
        by (intro "1.IH"(1) [OF True h_def l]) auto
      with True l show ?thesis by (subst symMerge_searchRight.simps) (simp add: h_def Let_def)
    next
      case l: True
      with "1.prems" h have "k \<le> h" by (meson not_le_imp_less)
      with "1.prems" h l have "symMerge_searchRight lessf m i h xs = k"
        by (intro "1.IH"(2) [OF True h_def]) auto
      with True l show ?thesis by (subst symMerge_searchRight.simps) (simp add: h_def Let_def)
    qed
  qed
qed

lemma symMerge_searchMid_eq:
  "start \<le> k \<Longrightarrow> k \<le> r \<Longrightarrow> (\<forall>c. start \<le> c \<and> c < k \<longrightarrow> \<not> lessf xs (p - c) c) \<Longrightarrow>
   (\<forall>c. k \<le> c \<and> c < r \<longrightarrow> lessf xs (p - c) c) \<Longrightarrow>
     symMerge_searchMid lessf p start r xs = k"
proof (induction lessf p start r xs rule: symMerge_searchMid.induct)
  case (1 lessf p start r xs)
  show ?case
  proof (cases "start < r")
    case False
    with "1.prems" show ?thesis by (subst symMerge_searchMid.simps) simp
  next
    case True
    define c where "c = (start + r) div 2"
    have c: "start \<le> c" "c < r" using True by (simp_all add: c_def)
    show ?thesis
    proof (cases "lessf xs (p - c) c")
      case l: False
      with "1.prems" c have "c < k" by (meson not_le_imp_less)
      with "1.prems" c have "symMerge_searchMid lessf p (c + 1) r xs = k"
        by (intro "1.IH"(1) [OF True c_def l]) auto
      with True l show ?thesis by (subst symMerge_searchMid.simps) (simp add: c_def Let_def)
    next
      case l: True
      with "1.prems" c have "k \<le> c" by (meson not_le_imp_less)
      with "1.prems" c l have "symMerge_searchMid lessf p start c xs = k"
        by (intro "1.IH"(2) [OF True c_def]) auto
      with True l show ?thesis by (subst symMerge_searchMid.simps) (simp add: c_def Let_def)
    qed
  qed
qed

lemma symMerge_shiftUp_blocks:
  "length A = k \<Longrightarrow> i = k + 1 + length M \<Longrightarrow>
     symMerge_shiftUp i k (A @ x # M @ rest) = A @ M @ x # rest"
proof (induction M arbitrary: A k)
  case Nil
  then show ?case by (subst symMerge_shiftUp.simps) simp
next
  case (Cons y M)
  have "symMerge_shiftUp i k (A @ x # (y # M) @ rest) = symMerge_shiftUp i (k + 1) ((A @ [y]) @ x # M @ rest)"
    using Cons.prems swap_adjacent' [of A k x y "M @ rest"]
    by (subst symMerge_shiftUp.simps) simp
  also have "\<dots> = (A @ [y]) @ M @ x # rest"
    using Cons.prems by (intro Cons.IH) simp_all
  finally show ?case by simp
qed

lemma symMerge_shiftDown_blocks:
  "length A = i \<Longrightarrow> k = i + length M \<Longrightarrow>
     symMerge_shiftDown i k (A @ M @ y # rest) = A @ y # M @ rest"
proof (induction M arbitrary: k rest rule: rev_induct)
  case Nil
  then show ?case by (subst symMerge_shiftDown.simps) simp
next
  case (snoc z M)
  have "symMerge_shiftDown i k (A @ (M @ [z]) @ y # rest) = symMerge_shiftDown i (k - 1) (A @ M @ y # (z # rest))"
    using snoc.prems swap_adjacent [of "A @ M" "k - 1" z y rest]
    by (subst symMerge_shiftDown.simps) simp
  also have "\<dots> = A @ y # M @ (z # rest)"
    using snoc.prems by (intro snoc.IH) simp_all
  finally show ?case by simp
qed

text \<open>Sorted runs by position, and the two halves that \<^verbatim>\<open>symMerge_func\<close> recurs on.\<close>

lemma psorted_split:
  "psorted P xs \<Longrightarrow> xs = filter P xs @ filter (\<lambda>x. \<not> P x) xs"
  using stablePart_psorted [of P xs] by (simp add: stablePart_def)

lemma psorted_nth_iff:
  assumes "psorted P xs" and "i < length xs"
  shows "P (xs ! i) \<longleftrightarrow> i < length (filter P xs)"
proof -
  let ?T = "filter P xs" and ?F = "filter (\<lambda>x. \<not> P x) xs"
  have xs: "xs = ?T @ ?F" using assms(1) by (rule psorted_split)
  have len: "length xs = length ?T + length ?F" using sum_length_filter_compl [of P xs] by simp
  show ?thesis
  proof (cases "i < length ?T")
    case True
    then have "xs ! i = ?T ! i" by (subst xs) (simp add: nth_append)
    moreover have "?T ! i \<in> set ?T" using True by (rule nth_mem)
    ultimately show ?thesis using True by simp
  next
    case False
    then have "xs ! i = ?F ! (i - length ?T)" by (subst xs) (simp add: nth_append)
    moreover have "?F ! (i - length ?T) \<in> set ?F" using False assms(2) len by (intro nth_mem) simp
    ultimately show ?thesis using False by simp
  qed
qed

lemma psorted_take_all:
  assumes "psorted P xs" and "k \<le> length (filter P xs)"
  shows "list_all P (take k xs)"
  unfolding list_all_length
proof (intro allI impI)
  fix i assume "i < length (take k xs)"
  then have "i < k" "i < length xs" by simp_all
  with assms psorted_nth_iff [OF assms(1), of i] show "P (take k xs ! i)" by simp
qed

lemma psorted_drop_none:
  assumes "psorted P xs" and "length (filter P xs) \<le> k"
  shows "list_all (\<lambda>x. \<not> P x) (drop k xs)"
  unfolding list_all_length
proof (intro allI impI)
  fix i assume "i < length (drop k xs)"
  then have "k + i < length xs" by simp
  with assms psorted_nth_iff [OF assms(1), of "k + i"] show "\<not> P (drop k xs ! i)" by simp
qed

lemma filter_all: "list_all P xs \<Longrightarrow> filter P xs = xs"
  by (simp add: list_all_iff)

lemma filter_none: "list_all (\<lambda>x. \<not> P x) xs \<Longrightarrow> filter P xs = []"
  by (simp add: list_all_iff filter_empty_conv)

lemma filter_not_all: "list_all P xs \<Longrightarrow> filter (\<lambda>x. \<not> P x) xs = []"
  by (simp add: list_all_iff filter_empty_conv)

lemma filter_not_none: "list_all (\<lambda>x. \<not> P x) xs \<Longrightarrow> filter (\<lambda>x. \<not> P x) xs = xs"
  by (simp add: list_all_iff)

lemma merge_halves:
  assumes "psorted P (L1 @ u)" and "psorted P (v @ R2)"
    and "u = [] \<or> v = [] \<or> (list_all (\<lambda>x. \<not> P x) u \<and> list_all P v)"
    and "list_all P L1 \<or> list_all (\<lambda>x. \<not> P x) R2"
  shows "stablePart P (L1 @ v) @ stablePart P (u @ R2) = stablePart P (L1 @ u @ v @ R2)"
proof -
  from assms(1) have a: "list_all P L1 \<or> list_all (\<lambda>x. \<not> P x) u" by (simp add: psorted_append)
  from assms(2) have b: "list_all P v \<or> list_all (\<lambda>x. \<not> P x) R2" by (simp add: psorted_append)
  from a b assms(3,4) show ?thesis
    by (auto simp: stablePart_def filter_all filter_none filter_not_all filter_not_none)
qed

text \<open>\<^verbatim>\<open>symMerge_func\<close> with neither run a single element, step by step.\<close>

lemma symMerge_func_general:
  assumes "m - a \<noteq> 1" and "b - m \<noteq> 1"
    and "mid = (a + b) div 2" and "n = mid + m"
    and "start0 = (if mid < m then n - b else a)"
    and "r0 = (if mid < m then mid else m)"
    and "start = symMerge_searchMid lessf (n - 1) start0 r0 xs"
    and "fin = n - start"
    and "(if start < m \<and> m < fin then rotate_func start m fin xs else Some xs) = Some xs1"
    and "(if a < start \<and> start < mid then symMerge_func lessf a start mid xs1 else Some xs1) = Some xs2"
  shows "symMerge_func lessf a m b xs =
    (if mid < fin \<and> fin < b then symMerge_func lessf mid fin b xs2 else Some xs2)"
proof -
  have "symMerge_func lessf a m b xs =
     Option.bind (if start < m \<and> m < fin then rotate_func start m fin xs else Some xs)
           (\<lambda>xs1.
         Option.bind (if a < start \<and> start < mid then symMerge_func lessf a start mid xs1 else Some xs1)
           (\<lambda>xs2.
         if mid < fin \<and> fin < b then symMerge_func lessf mid fin b xs2 else Some xs2))"
    unfolding assms(3-8) using assms(1,2)
    by (subst symMerge_func.simps) (simp only: Let_def if_False)
  then show ?thesis by (simp only: assms(9,10) Option.bind.simps)
qed

lemma take_drop_append: "take n xs @ drop n xs @ ys = xs @ ys"
  by (metis append_assoc append_take_drop_id)

lemma symMerge_single_left:
  assumes "psorted P R" and "length A = a" and "m = a + 1" and "b = m + length R"
  shows "symMerge_func (lessP P) a m b (A @ [x] @ R @ B) = Some (A @ stablePart P ([x] @ R) @ B)"
proof -
  let ?xs = "A @ [x] @ R @ B"
  let ?T = "filter P R"
  define t where "t = length ?T"
  define k where "k = (if P x then m else m + t)"
  have lenT: "t \<le> length R" by (simp add: t_def)
  have xa: "?xs ! a = x" using assms by (simp add: nth_append)
  have xh: "?xs ! h = R ! (h - m)" if "m \<le> h" "h < b" for h
    using that assms by (auto simp: nth_append)
  have PR: "P (R ! (h - m)) \<longleftrightarrow> h - m < t" if "m \<le> h" "h < b" for h
    using that assms psorted_nth_iff [OF assms(1), of "h - m"] by (simp add: t_def)
  have search: "symMerge_searchLeft (lessP P) a m b ?xs = k"
  proof (rule symMerge_searchLeft_eq)
    show "m \<le> k" by (simp add: k_def)
    show "k \<le> b" using assms lenT by (simp add: k_def)
    show "\<forall>h. m \<le> h \<and> h < k \<longrightarrow> lessP P ?xs h a"
    proof (intro allI impI)
      fix h assume h: "m \<le> h \<and> h < k"
      then have "h < b" using assms lenT by (auto simp: k_def split: if_splits)
      with h xa xh [of h] PR [of h] show "lessP P ?xs h a"
        by (auto simp: lessP_def k_def split: if_splits)
    qed
    show "\<forall>h. k \<le> h \<and> h < b \<longrightarrow> \<not> lessP P ?xs h a"
    proof (intro allI impI)
      fix h assume h: "k \<le> h \<and> h < b"
      then have "m \<le> h" by (auto simp: k_def split: if_splits)
      with h xa xh [of h] PR [of h] show "\<not> lessP P ?xs h a"
        by (auto simp: lessP_def k_def split: if_splits)
    qed
  qed
  have R: "R = take (k - m) R @ drop (k - m) R" by simp
  have "symMerge_shiftUp k a (A @ x # take (k - m) R @ (drop (k - m) R @ B))
      = A @ take (k - m) R @ x # (drop (k - m) R @ B)"
    using assms lenT by (intro symMerge_shiftUp_blocks) (auto simp: k_def)
  then have shift: "symMerge_shiftUp k a ?xs = A @ take (k - m) R @ x # drop (k - m) R @ B"
    by (simp add: take_drop_append)
  have final: "take (k - m) R @ x # drop (k - m) R = stablePart P ([x] @ R)"
  proof (cases "P x")
    case True
    then have "psorted P ([x] @ R)" using assms(1) by simp
    from stablePart_psorted [OF this] True show ?thesis by (simp add: k_def)
  next
    case False
    have "R = ?T @ filter (\<lambda>x. \<not> P x) R" using assms(1) by (rule psorted_split)
    then have "take t R = ?T" "drop t R = filter (\<lambda>x. \<not> P x) R"
      unfolding t_def by (metis append_eq_conv_conj)+
    with False show ?thesis by (simp add: k_def stablePart_def)
  qed
  have "m - a = 1" using assms by simp
  with search have "symMerge_func (lessP P) a m b ?xs = Some (symMerge_shiftUp k a ?xs)"
    by (subst symMerge_func.simps) (simp add: Let_def)
  with shift final show ?thesis by simp
qed

lemma symMerge_single_right:
  assumes "psorted P L" and "length A = a" and "m = a + length L" and "b = m + 1"
    and "length L \<noteq> 1"
  shows "symMerge_func (lessP P) a m b (A @ L @ [y] @ B) = Some (A @ stablePart P (L @ [y]) @ B)"
proof -
  let ?xs = "A @ L @ [y] @ B"
  let ?T = "filter P L"
  define t where "t = length ?T"
  define k where "k = (if P y then a + t else m)"
  have lenT: "t \<le> length L" by (simp add: t_def)
  have xm: "?xs ! m = y" using assms by (simp add: nth_append)
  have xh: "?xs ! h = L ! (h - a)" if "a \<le> h" "h < m" for h
    using that assms by (auto simp: nth_append)
  have PL: "P (L ! (h - a)) \<longleftrightarrow> h - a < t" if "a \<le> h" "h < m" for h
    using that assms psorted_nth_iff [OF assms(1), of "h - a"] by (simp add: t_def)
  have search: "symMerge_searchRight (lessP P) m a m ?xs = k"
  proof (rule symMerge_searchRight_eq)
    show "a \<le> k" using assms by (simp add: k_def)
    show "k \<le> m" using assms lenT by (simp add: k_def)
    show "\<forall>h. a \<le> h \<and> h < k \<longrightarrow> \<not> lessP P ?xs m h"
    proof (intro allI impI)
      fix h assume h: "a \<le> h \<and> h < k"
      then have "h < m" using assms lenT by (auto simp: k_def split: if_splits)
      with h xm xh [of h] PL [of h] show "\<not> lessP P ?xs m h"
        by (auto simp: lessP_def k_def split: if_splits)
    qed
    show "\<forall>h. k \<le> h \<and> h < m \<longrightarrow> lessP P ?xs m h"
    proof (intro allI impI)
      fix h assume h: "k \<le> h \<and> h < m"
      then have "a \<le> h" using assms by (auto simp: k_def split: if_splits)
      with h xm xh [of h] PL [of h] show "lessP P ?xs m h"
        by (auto simp: lessP_def k_def split: if_splits)
    qed
  qed
  have "symMerge_shiftDown k m ((A @ take (k - a) L) @ drop (k - a) L @ y # B)
      = (A @ take (k - a) L) @ y # drop (k - a) L @ B"
    using assms lenT by (intro symMerge_shiftDown_blocks) (auto simp: k_def)
  then have shift: "symMerge_shiftDown k m ?xs = A @ take (k - a) L @ y # drop (k - a) L @ B"
    by (simp add: take_drop_append)
  have final: "take (k - a) L @ y # drop (k - a) L = stablePart P (L @ [y])"
  proof (cases "P y")
    case False
    then have "psorted P (L @ [y])" using assms(1) by (simp add: psorted_append)
    from stablePart_psorted [OF this] False assms show ?thesis by (simp add: k_def)
  next
    case True
    have "L = ?T @ filter (\<lambda>x. \<not> P x) L" using assms(1) by (rule psorted_split)
    then have "take t L = ?T" "drop t L = filter (\<lambda>x. \<not> P x) L"
      unfolding t_def by (metis append_eq_conv_conj)+
    with True show ?thesis by (simp add: k_def stablePart_def)
  qed
  have "m - a \<noteq> 1" "b - m = 1" using assms by simp_all
  with search have "symMerge_func (lessP P) a m b ?xs = Some (symMerge_shiftDown k m ?xs)"
    by (subst symMerge_func.simps) (simp add: Let_def)
  with shift final show ?thesis by simp
qed

lemma psorted_take: "psorted P xs \<Longrightarrow> psorted P (take k xs)"
  using psorted_append [of P "take k xs" "drop k xs"] by simp

lemma psorted_drop: "psorted P xs \<Longrightarrow> psorted P (drop k xs)"
  using psorted_append [of P "take k xs" "drop k xs"] by simp

text \<open>
  \<^verbatim>\<open>symMerge_func\<close> merges two adjacent non-empty sorted runs into the stable order of
  both. In the general case the search ends at offset \<open>s\<close> of the left run, which is
  computed from the sizes of the runs and the counts of members in them.
\<close>

lemma symMerge_func_part:
  "psorted P L \<Longrightarrow> psorted P R \<Longrightarrow> L \<noteq> [] \<Longrightarrow> R \<noteq> [] \<Longrightarrow>
   length A = a \<Longrightarrow> m = a + length L \<Longrightarrow> b = m + length R \<Longrightarrow>
     symMerge_func (lessP P) a m b (A @ L @ R @ B) = Some (A @ stablePart P (L @ R) @ B)"
proof (induction "length L + length R" arbitrary: L R A B a m b rule: less_induct)
  case less
  note sL = less.prems(1) and sR = less.prems(2)
  show ?case
  proof (cases "length L = 1")
    case True
    then obtain x where L: "L = [x]" by (cases L) auto
    have "m = a + 1" using less.prems(6) L by simp
    from symMerge_single_left [OF sR less.prems(5) this less.prems(7), of x B] show ?thesis
      unfolding L .
  next
    case L1: False
    show ?thesis
    proof (cases "length R = 1")
      case True
      then obtain y where R: "R = [y]" by (cases R) auto
      have "b = m + 1" using less.prems(7) R by simp
      from symMerge_single_right [OF sL less.prems(5,6) this L1, of y B] show ?thesis
        unfolding R .
    next
      case R1: False
      let ?xs = "A @ L @ R @ B"
      define l where "l = length L"
      define r where "r = length R"
      define p1 where "p1 = length (filter P L)"
      define p2 where "p2 = length (filter P R)"
      define h where "h = (l + r) div 2"
      define s where "s = min (min l h) (max p1 (h - p2))"
      have "length L \<noteq> 0" "length R \<noteq> 0" using less.prems(3,4) by simp_all
      with L1 R1 have lr: "2 \<le> l" "2 \<le> r" unfolding l_def r_def by linarith+
      have pl: "p1 \<le> l" "p2 \<le> r" by (simp_all add: p1_def p2_def l_def r_def)
      have h2: "2 * h \<le> l + r" "l + r \<le> 2 * h + 1" by (simp_all add: h_def)
      have m: "m = a + l" and b: "b = a + l + r" using less.prems by (simp_all add: l_def r_def)
      have s1: "h - r \<le> s" using h2 pl unfolding s_def by linarith
      have s2: "s \<le> l" "s \<le> h" by (simp_all add: s_def)
      have s3: "s \<le> p1 \<or> p2 \<le> h - s" unfolding s_def by linarith
      have s4: "p1 \<le> s \<and> h - s \<le> p2" if "s < l" "s < h"
        using that unfolding s_def by linarith
      have nthL: "?xs ! c = L ! (c - a)" if "a \<le> c" "c < m" for c
        using that less.prems(5) m by (auto simp: nth_append l_def)
      have nthR: "?xs ! d = R ! (d - m)" if "m \<le> d" "d < b" for d
        using that less.prems(5) m b by (auto simp: nth_append l_def r_def)
      have PL: "P (L ! i) \<longleftrightarrow> i < p1" if "i < l" for i
        using that psorted_nth_iff [OF sL, of i] by (simp add: l_def p1_def)
      have PR: "P (R ! j) \<longleftrightarrow> j < p2" if "j < r" for j
        using that psorted_nth_iff [OF sR, of j] by (simp add: r_def p2_def)
      have probe: "lessP P ?xs (a + h + m - 1 - c) c \<longleftrightarrow> (h - 1 - (c - a) < p2 \<and> p1 \<le> c - a)"
        if c: "a + (h - r) \<le> c" "c < a + min l h" for c
      proof -
        have e: "a + h + m - 1 - c = m + (h - 1 - (c - a))" using c m by linarith
        have "a \<le> c" "c < m" using c m by linarith+
        then have 1: "?xs ! c = L ! (c - a)" by (rule nthL)
        have "m \<le> m + (h - 1 - (c - a))" "m + (h - 1 - (c - a)) < b" using c m b by linarith+
        then have 2: "?xs ! (m + (h - 1 - (c - a))) = R ! (h - 1 - (c - a))"
          using nthR [of "m + (h - 1 - (c - a))"] by simp
        have 3: "c - a < l" "h - 1 - (c - a) < r" using c by linarith+
        have "lessP P ?xs (a + h + m - 1 - c) c \<longleftrightarrow> lessP P ?xs (m + (h - 1 - (c - a))) c"
          by (simp only: e)
        also have "\<dots> \<longleftrightarrow> (P (R ! (h - 1 - (c - a))) \<and> \<not> P (L ! (c - a)))"
          by (simp only: lessP_def 1 2)
        also have "\<dots> \<longleftrightarrow> (h - 1 - (c - a) < p2 \<and> p1 \<le> c - a)"
          using PL [OF 3(1)] PR [OF 3(2)] by auto
        finally show ?thesis .
      qed
      have search: "symMerge_searchMid (lessP P) (a + h + m - 1) (a + (h - r)) (a + min l h) ?xs = a + s"
      proof (rule symMerge_searchMid_eq)
        show "a + (h - r) \<le> a + s" using s1 by simp
        show "a + s \<le> a + min l h" using s2 by simp
        show "\<forall>c. a + (h - r) \<le> c \<and> c < a + s \<longrightarrow> \<not> lessP P ?xs (a + h + m - 1 - c) c"
        proof (intro allI impI)
          fix c assume c: "a + (h - r) \<le> c \<and> c < a + s"
          then have "c < a + min l h" using s2 by linarith
          with c probe [of c] have "lessP P ?xs (a + h + m - 1 - c) c
              \<longleftrightarrow> (h - 1 - (c - a) < p2 \<and> p1 \<le> c - a)" by simp
          moreover have "c - a < max p1 (h - p2)" using c unfolding s_def by linarith
          ultimately show "\<not> lessP P ?xs (a + h + m - 1 - c) c" by auto
        qed
        show "\<forall>c. a + s \<le> c \<and> c < a + min l h \<longrightarrow> lessP P ?xs (a + h + m - 1 - c) c"
        proof (intro allI impI)
          fix c assume c: "a + s \<le> c \<and> c < a + min l h"
          then have "a + (h - r) \<le> c" using s1 by linarith
          with c probe [of c] have "lessP P ?xs (a + h + m - 1 - c) c
              \<longleftrightarrow> (h - 1 - (c - a) < p2 \<and> p1 \<le> c - a)" by simp
          moreover have "s < l" "s < h" using c by linarith+
          note s4 [OF this]
          ultimately show "lessP P ?xs (a + h + m - 1 - c) c" using c by auto
        qed
      qed
      define L1 where "L1 = take s L"
      define u where "u = drop s L"
      define v where "v = take (h - s) R"
      define R2 where "R2 = drop (h - s) R"
      have L: "L = L1 @ u" and R: "R = v @ R2" by (simp_all add: L1_def u_def v_def R2_def)
      have len: "length L1 = s" "length u = l - s" "length v = h - s" "length R2 = r - (h - s)"
        using s1 s2 by (simp_all add: L1_def u_def v_def R2_def l_def r_def)
      have sorted: "psorted P L1" "psorted P u" "psorted P v" "psorted P R2"
        using sL sR by (simp_all add: L1_def u_def v_def R2_def psorted_take psorted_drop)
      have xs: "?xs = A @ L1 @ u @ v @ R2 @ B" by (simp add: L R)
      have rot: "(if a + s < m \<and> m < m + (h - s) then rotate_func (a + s) m (m + (h - s)) ?xs else Some ?xs)
          = Some (A @ L1 @ v @ u @ R2 @ B)"
      proof (cases "s < l \<and> s < h")
        case True
        then have c: "a + s < m \<and> m < m + (h - s)" using m by linarith
        have "u \<noteq> []" "v \<noteq> []" using True len by auto
        then have "rotate_func (a + s) m (m + (h - s)) ((A @ L1) @ u @ v @ (R2 @ B))
            = Some ((A @ L1) @ v @ u @ (R2 @ B))"
          using less.prems(5) len m s2 by (intro rotate_func_blocks) simp_all
        then have "rotate_func (a + s) m (m + (h - s)) (A @ L1 @ u @ v @ R2 @ B)
            = Some (A @ L1 @ v @ u @ R2 @ B)" by (simp only: append_assoc)
        then show ?thesis by (simp only: c if_True simp_thms xs)
      next
        case False
        then have c: "\<not> (a + s < m \<and> m < m + (h - s))" using m by linarith
        have "u = [] \<or> v = []" using False len s2 by auto
        then have "A @ L1 @ u @ v @ R2 @ B = A @ L1 @ v @ u @ R2 @ B" by auto
        then show ?thesis by (simp only: c if_False simp_thms xs)
      qed
      have first: "(if a < a + s \<and> a + s < a + h
            then symMerge_func (lessP P) a (a + s) (a + h) (A @ L1 @ v @ u @ R2 @ B)
            else Some (A @ L1 @ v @ u @ R2 @ B))
          = Some (A @ stablePart P (L1 @ v) @ u @ R2 @ B)"
      proof (cases "0 < s \<and> s < h")
        case True
        then have c: "a < a + s \<and> a + s < a + h" by linarith
        have "length L1 + length v < length L + length R"
          using len h2 lr s2 unfolding l_def r_def by linarith
        moreover have "L1 \<noteq> []" "v \<noteq> []" using True len by auto
        ultimately have "symMerge_func (lessP P) a (a + s) (a + h) (A @ L1 @ v @ (u @ R2 @ B))
            = Some (A @ stablePart P (L1 @ v) @ (u @ R2 @ B))"
          using sorted less.prems(5) len s2 by (intro less.hyps) simp_all
        then have "symMerge_func (lessP P) a (a + s) (a + h) (A @ L1 @ v @ u @ R2 @ B)
            = Some (A @ stablePart P (L1 @ v) @ u @ R2 @ B)" by (simp only: append_assoc)
        then show ?thesis by (simp only: c if_True simp_thms)
      next
        case False
        then have c: "\<not> (a < a + s \<and> a + s < a + h)" by linarith
        have "L1 = [] \<or> v = []" using False len s2 by auto
        then have "psorted P (L1 @ v)" using sorted by auto
        from stablePart_psorted [OF this]
        have "A @ L1 @ v @ u @ R2 @ B = A @ stablePart P (L1 @ v) @ u @ R2 @ B" by simp
        then show ?thesis by (simp only: c if_False simp_thms)
      qed
      have second: "(if a + h < m + (h - s) \<and> m + (h - s) < b
            then symMerge_func (lessP P) (a + h) (m + (h - s)) b (A @ stablePart P (L1 @ v) @ u @ R2 @ B)
            else Some (A @ stablePart P (L1 @ v) @ u @ R2 @ B))
          = Some (A @ stablePart P (L1 @ v) @ stablePart P (u @ R2) @ B)"
      proof (cases "s < l \<and> h - s < r")
        case True
        then have c: "a + h < m + (h - s) \<and> m + (h - s) < b" using m b s2 by linarith
        have "length u + length R2 < length L + length R"
          using len h2 lr s2 s1 unfolding l_def r_def by linarith
        moreover have "u \<noteq> []" "R2 \<noteq> []" using True len by auto
        moreover have "length (A @ stablePart P (L1 @ v)) = a + h"
          using less.prems(5) len s2 by simp
        moreover have "m + (h - s) = a + h + length u" using len m s2 by linarith
        moreover have "b = m + (h - s) + length R2" using len m b s1 s2 by linarith
        ultimately have "symMerge_func (lessP P) (a + h) (m + (h - s)) b ((A @ stablePart P (L1 @ v)) @ u @ R2 @ B)
            = Some ((A @ stablePart P (L1 @ v)) @ stablePart P (u @ R2) @ B)"
          using sorted by (intro less.hyps)
        then have "symMerge_func (lessP P) (a + h) (m + (h - s)) b (A @ stablePart P (L1 @ v) @ u @ R2 @ B)
            = Some (A @ stablePart P (L1 @ v) @ stablePart P (u @ R2) @ B)" by (simp only: append_assoc)
        then show ?thesis by (simp only: c if_True simp_thms)
      next
        case False
        then have c: "\<not> (a + h < m + (h - s) \<and> m + (h - s) < b)" using m b s2 by linarith
        have "u = [] \<or> R2 = []" using False len s2 by auto
        then have "psorted P (u @ R2)" using sorted by auto
        from stablePart_psorted [OF this]
        have "A @ stablePart P (L1 @ v) @ u @ R2 @ B = A @ stablePart P (L1 @ v) @ stablePart P (u @ R2) @ B"
          by simp
        then show ?thesis by (simp only: c if_False simp_thms)
      qed
      have final: "stablePart P (L1 @ v) @ stablePart P (u @ R2) = stablePart P (L @ R)"
      proof -
        have 1: "u = [] \<or> v = [] \<or> (list_all (\<lambda>x. \<not> P x) u \<and> list_all P v)"
        proof (cases "s < l \<and> s < h")
          case True
          with s4 have "p1 \<le> s" "h - s \<le> p2" by simp_all
          then show ?thesis
            using psorted_drop_none [OF sL, of s] psorted_take_all [OF sR, of "h - s"]
            by (simp add: u_def v_def p1_def p2_def)
        next
          case False
          then show ?thesis using len s2 by auto
        qed
        have 2: "list_all P L1 \<or> list_all (\<lambda>x. \<not> P x) R2"
          using s3 psorted_take_all [OF sL, of s] psorted_drop_none [OF sR, of "h - s"]
          by (auto simp: L1_def R2_def p1_def p2_def)
        have "stablePart P (L1 @ v) @ stablePart P (u @ R2) = stablePart P (L1 @ u @ v @ R2)"
          using sL sR 1 2 by (intro merge_halves) (simp_all add: L R)
        then show ?thesis by (simp add: L R)
      qed
      have "symMerge_func (lessP P) a m b ?xs =
          (if a + h < m + (h - s) \<and> m + (h - s) < b
            then symMerge_func (lessP P) (a + h) (m + (h - s)) b (A @ stablePart P (L1 @ v) @ u @ R2 @ B)
            else Some (A @ stablePart P (L1 @ v) @ u @ R2 @ B))"
      proof (rule symMerge_func_general [where n = "a + h + m" and ?start0.0 = "a + (h - r)"
            and ?r0.0 = "a + min l h" and start = "a + s" and ?xs1.0 = "A @ L1 @ v @ u @ R2 @ B"])
        show "m - a \<noteq> 1" using m lr by linarith
        show "b - m \<noteq> 1" using m b lr by linarith
        show "a + h = (a + b) div 2" using b unfolding h_def by linarith
        show "a + h + m = a + h + m" ..
        show "a + (h - r) = (if a + h < m then a + h + m - b else a)"
        proof (cases "a + h < m")
          case True
          then have "a + (h - r) = a + h + m - b" using m b h2 by linarith
          with True show ?thesis by (simp only: if_True)
        next
          case False
          then have "a + (h - r) = a" using m b h2 by linarith
          with False show ?thesis by (simp only: if_False)
        qed
        show "a + min l h = (if a + h < m then a + h else m)"
        proof (cases "a + h < m")
          case True
          then have "a + min l h = a + h" using m by linarith
          with True show ?thesis by (simp only: if_True)
        next
          case False
          then have "a + min l h = m" using m by linarith
          with False show ?thesis by (simp only: if_False)
        qed
        show "a + s = symMerge_searchMid (lessP P) (a + h + m - 1) (a + (h - r)) (a + min l h) ?xs"
          by (rule search [symmetric])
        show "m + (h - s) = a + h + m - (a + s)" using s2 by linarith
        show "(if a + s < m \<and> m < m + (h - s) then rotate_func (a + s) m (m + (h - s)) ?xs else Some ?xs)
          = Some (A @ L1 @ v @ u @ R2 @ B)" by (rule rot)
        show "(if a < a + s \<and> a + s < a + h
            then symMerge_func (lessP P) a (a + s) (a + h) (A @ L1 @ v @ u @ R2 @ B)
            else Some (A @ L1 @ v @ u @ R2 @ B))
          = Some (A @ stablePart P (L1 @ v) @ u @ R2 @ B)" by (rule first)
      qed
      also have "\<dots> = Some (A @ stablePart P (L1 @ v) @ stablePart P (u @ R2) @ B)"
        by (rule second)
      also have "\<dots> = Some (A @ (stablePart P (L1 @ v) @ stablePart P (u @ R2)) @ B)"
        by simp
      finally show ?thesis by (simp only: final)
    qed
  qed
qed

text \<open>
  \<^verbatim>\<open>stable_func\<close>: after the insertion sorts the list is ordered in blocks of 20, each
  round of merging doubles the blocks, and the rounds end with one block.
\<close>

lemma blocked_Nil [simp]: "blocked P k [] = []"
  by (subst blocked.simps) simp

lemma blocked_step:
  "0 < k \<Longrightarrow> blocked P k xs = stablePart P (take k xs) @ blocked P k (drop k xs)"
  by (subst blocked.simps) simp

lemma blocked_short: "0 < k \<Longrightarrow> length xs \<le> k \<Longrightarrow> blocked P k xs = stablePart P xs"
  by (subst blocked_step) simp_all

lemma stable_blocks_part:
  "0 < bs \<Longrightarrow> length Z = a \<Longrightarrow> n = a + length Y \<Longrightarrow>
     \<exists>a' ys. stable_blocks (lessP P) n bs a (a + bs) (Z @ Y) = Some (a', ys)
       \<and> insertionSort_func (lessP P) a' n ys = Z @ blocked P bs Y"
proof (induction "length Y" arbitrary: Z a Y rule: less_induct)
  case less
  show ?case
  proof (cases "a + bs \<le> n")
    case True
    define U where "U = take bs Y"
    define Y' where "Y' = drop bs Y"
    have Y: "Y = U @ Y'" and lU: "length U = bs" and lY': "length Y' = length Y - bs"
      using True less.prems by (simp_all add: U_def Y'_def)
    have ins: "insertionSort_func (lessP P) a (a + bs) (Z @ Y) = (Z @ stablePart P U) @ Y'"
      using insertionSort_func_part [of Z a "a + bs" U P Y'] less.prems lU by (simp add: Y)
    have "\<exists>a' ys. stable_blocks (lessP P) n bs (a + bs) (a + bs + bs) ((Z @ stablePart P U) @ Y') = Some (a', ys)
        \<and> insertionSort_func (lessP P) a' n ys = (Z @ stablePart P U) @ blocked P bs Y'"
      using less.prems lU lY' True by (intro less.hyps) simp_all
    moreover have "stable_blocks (lessP P) n bs a (a + bs) (Z @ Y)
        = stable_blocks (lessP P) n bs (a + bs) (a + bs + bs) ((Z @ stablePart P U) @ Y')"
      using True by (subst stable_blocks.simps) (simp only: ins if_True)
    moreover have "blocked P bs Y = stablePart P U @ blocked P bs Y'"
      using blocked_step [OF less.prems(1), of P Y] by (simp add: U_def Y'_def)
    ultimately show ?thesis by simp
  next
    case False
    then have "length Y \<le> bs" using less.prems by simp
    then have "blocked P bs Y = stablePart P Y" using less.prems(1) by (simp add: blocked_short)
    moreover have "insertionSort_func (lessP P) a n (Z @ Y @ []) = Z @ stablePart P Y @ []"
      using less.prems by (intro insertionSort_func_part) simp_all
    moreover have "stable_blocks (lessP P) n bs a (a + bs) (Z @ Y) = Some (a, Z @ Y)"
      using False by (subst stable_blocks.simps) simp
    ultimately show ?thesis by simp
  qed
qed

lemma stablePart_eq_Nil [simp]: "stablePart P xs = [] \<longleftrightarrow> xs = []"
  by (metis length_0_conv length_stablePart)

lemma stable_mergeRound_part:
  "0 < k \<Longrightarrow> length Z = a \<Longrightarrow> n = a + length Y \<Longrightarrow>
     \<exists>a' ys. stable_mergeRound (lessP P) n k a (a + 2 * k) (Z @ blocked P k Y) = Some (a', ys)
       \<and> (if a' + k < n then symMerge_func (lessP P) a' (a' + k) n ys else Some ys)
           = Some (Z @ blocked P (2 * k) Y)"
proof (induction "length Y" arbitrary: Z a Y rule: less_induct)
  case less
  note k = less.prems(1)
  show ?case
  proof (cases "a + 2 * k \<le> n")
    case True
    define U where "U = take k Y"
    define V where "V = take k (drop k Y)"
    define Y' where "Y' = drop (2 * k) Y"
    have lY: "2 * k \<le> length Y" using True less.prems by simp
    have "take k (drop k Y) @ drop k (drop k Y) = drop k Y" by (rule append_take_drop_id)
    then have "V @ Y' = drop k Y" by (simp add: V_def Y'_def mult_2)
    then have Y: "Y = U @ V @ Y'" by (simp add: U_def)
    have lU: "length U = k" and lV: "length V = k" and lY': "length Y' = length Y - 2 * k"
      using lY by (simp_all add: U_def V_def Y'_def)
    have bk: "blocked P k Y = stablePart P U @ stablePart P V @ blocked P k Y'"
      using blocked_step [OF k, of P Y] blocked_step [OF k, of P "drop k Y"]
      by (simp add: U_def V_def Y'_def mult_2)
    have b2k: "blocked P (2 * k) Y = stablePart P (U @ V) @ blocked P (2 * k) Y'"
    proof -
      have "take (2 * k) Y = U @ V" using Y lU lV by simp
      with blocked_step [of "2 * k" P Y] k show ?thesis by (simp add: Y'_def)
    qed
    have "symMerge_func (lessP P) a (a + k) (a + 2 * k) (Z @ stablePart P U @ stablePart P V @ blocked P k Y')
        = Some (Z @ stablePart P (stablePart P U @ stablePart P V) @ blocked P k Y')"
      using less.prems lU lV by (intro symMerge_func_part) auto
    then have sm: "symMerge_func (lessP P) a (a + k) (a + 2 * k) (Z @ blocked P k Y)
        = Some ((Z @ stablePart P (U @ V)) @ blocked P k Y')"
      by (simp add: bk stablePart_append_left stablePart_append_right)
    have step: "stable_mergeRound (lessP P) n k a (a + 2 * k) (Z @ blocked P k Y)
        = stable_mergeRound (lessP P) n k (a + 2 * k) (a + 2 * k + 2 * k) ((Z @ stablePart P (U @ V)) @ blocked P k Y')"
      using True by (subst stable_mergeRound.simps) (simp only: sm if_True Option.bind.simps)
    have "\<exists>a' ys. stable_mergeRound (lessP P) n k (a + 2 * k) (a + 2 * k + 2 * k)
          ((Z @ stablePart P (U @ V)) @ blocked P k Y') = Some (a', ys)
        \<and> (if a' + k < n then symMerge_func (lessP P) a' (a' + k) n ys else Some ys)
           = Some ((Z @ stablePart P (U @ V)) @ blocked P (2 * k) Y')"
      using less.prems lU lV lY' lY by (intro less.hyps) simp_all
    with step b2k show ?thesis by simp
  next
    case False
    then have lY: "length Y < 2 * k" using less.prems by simp
    have ret: "stable_mergeRound (lessP P) n k a (a + 2 * k) (Z @ blocked P k Y) = Some (a, Z @ blocked P k Y)"
      using False by (subst stable_mergeRound.simps) simp
    have b2k: "blocked P (2 * k) Y = stablePart P Y"
      using lY k by (simp add: blocked_short)
    show ?thesis
    proof (cases "a + k < n")
      case True
      define U where "U = take k Y"
      define V where "V = drop k Y"
      have lk: "k < length Y" using True less.prems by simp
      have Y: "Y = U @ V" and lU: "length U = k" and lV: "length V = length Y - k"
        using lk by (simp_all add: U_def V_def)
      have "blocked P k V = stablePart P V" using lV lY k by (intro blocked_short) simp_all
      with blocked_step [OF k, of P Y] have bk: "blocked P k Y = stablePart P U @ stablePart P V"
        by (simp add: U_def V_def)
      have "symMerge_func (lessP P) a (a + k) n (Z @ stablePart P U @ stablePart P V @ [])
          = Some (Z @ stablePart P (stablePart P U @ stablePart P V) @ [])"
        using less.prems lU lV lk by (intro symMerge_func_part) auto
      moreover have "stablePart P Y = stablePart P (U @ V)" using Y by simp
      ultimately have "symMerge_func (lessP P) a (a + k) n (Z @ blocked P k Y) = Some (Z @ stablePart P Y)"
        by (simp add: bk stablePart_append_left stablePart_append_right)
      with True ret b2k show ?thesis by simp
    next
      case False
      then have "length Y \<le> k" using less.prems by simp
      then have "blocked P k Y = stablePart P Y" using k by (simp add: blocked_short)
      with False ret b2k show ?thesis by simp
    qed
  qed
qed

lemma stable_rounds_part:
  "0 < k \<Longrightarrow> n = length xs \<Longrightarrow>
     stable_rounds (lessP P) n k (blocked P k xs) = Some (stablePart P xs)"
proof (induction "n - k" arbitrary: k rule: less_induct)
  case less
  show ?case
  proof (cases "k < n")
    case True
    from stable_mergeRound_part [OF less.prems(1), of "[]" 0 n xs P] less.prems(2)
    obtain a' ys where r: "stable_mergeRound (lessP P) n k 0 (2 * k) (blocked P k xs) = Some (a', ys)"
      and t: "(if a' + k < n then symMerge_func (lessP P) a' (a' + k) n ys else Some ys)
           = Some (blocked P (2 * k) xs)"
      by auto
    have "stable_rounds (lessP P) n (k * 2) (blocked P (k * 2) xs) = Some (stablePart P xs)"
      using True less.prems by (intro less.hyps) simp_all
    then have next_round: "stable_rounds (lessP P) n (k * 2) (blocked P (2 * k) xs) = Some (stablePart P xs)"
      by (simp only: mult.commute [of k 2])
    have "stable_rounds (lessP P) n k (blocked P k xs)
        = stable_rounds (lessP P) n (k * 2) (blocked P (2 * k) xs)"
      using True by (subst stable_rounds.simps) (simp only: r t if_True Option.bind.simps fst_conv snd_conv)
    with next_round show ?thesis by simp
  next
    case False
    then have "blocked P k xs = stablePart P xs" using less.prems by (simp add: blocked_short)
    moreover have "stable_rounds (lessP P) n k (blocked P k xs) = Some (blocked P k xs)"
      using False by (subst stable_rounds.simps) simp
    ultimately show ?thesis by simp
  qed
qed

lemma stable_func_part: "n = length xs \<Longrightarrow> stable_func (lessP P) n xs = Some (stablePart P xs)"
proof -
  assume n: "n = length xs"
  from stable_blocks_part [of 20 "[]" 0 n xs P] n
  obtain a' ys where b: "stable_blocks (lessP P) n 20 0 20 xs = Some (a', ys)"
    and i: "insertionSort_func (lessP P) a' n ys = blocked P 20 xs"
    by auto
  have "stable_rounds (lessP P) n 20 (blocked P 20 xs) = Some (stablePart P xs)"
    using n by (intro stable_rounds_part) simp_all
  with b i show ?thesis by (simp add: stable_func_def)
qed

lemma SliceStable_part: "SliceStable (lessP P) xs = Some (stablePart P xs)"
  by (simp add: SliceStable_def stable_func_part)

section \<open>Properties of the ordering stage\<close>

lemma lessByViewer_lessP: "lessByViewer login = lessP (\<lambda>e. CommitAuthorID e = login)"
  by (intro ext) (simp add: lessByViewer_def lessP_def)

lemma fetchLatestProjects_sorted:
  assumes "client (QueryCalls w) = Inr query" and "parseResult now (Nodes query) [] = Inr result"
  shows "fetchLatestProjects client now w =
    (Returns (stablePart (\<lambda>e. CommitAuthorID e = ViewerLogin query) result),
     w\<lparr>QueryCalls := QueryCalls w + 1\<rparr>)"
  using assms
  by (simp add: fetchLatestProjects_def Query_def enableSortByName_def lessByViewer_lessP
      SliceStable_part)

text \<open>The sort returns, so \<^verbatim>\<open>fetchLatestProjects\<close> returns or panics.\<close>

lemma fetchLatestProjects_total: "fst (fetchLatestProjects client now w) \<noteq> Hangs"
  by (simp add: fetchLatestProjects_def Query_def lessByViewer_lessP SliceStable_part
      split: sum.splits)

lemma exampleQuery_fetch:
  "fst (fetchLatestProjects (\<lambda>k. Inr exampleQuery) (3 * Hour) w) = Returns exampleResult"
  by code_simp

text \<open>
  Claim C1. With the toggle on, the ordering stage returns the records of the transform
  stage rearranged so that every record whose commit author is the viewer stands before
  every record whose commit author is not, wherever they stood in the input.
\<close>

theorem viewer_records_first:
  assumes "client (QueryCalls w) = Inr query" and "parseResult now (Nodes query) [] = Inr result"
  shows "\<exists>r. fst (fetchLatestProjects client now w) = Returns r
    \<and> length r = length result \<and> set r = set result
    \<and> (\<forall>i j. i < length r \<and> j < length r
          \<and> CommitAuthorID (r ! i) = ViewerLogin query
          \<and> CommitAuthorID (r ! j) \<noteq> ViewerLogin query \<longrightarrow> i < j)"
proof -
  let ?P = "\<lambda>e. CommitAuthorID e = ViewerLogin query"
  let ?r = "stablePart ?P result"
  have "i < j" if "i < length ?r" "j < length ?r" "?P (?r ! i)" "\<not> ?P (?r ! j)" for i j
  proof (rule ccontr)
    assume "\<not> i < j"
    then have "j \<le> i" by simp
    from psorted_nth [OF psorted_stablePart this that(1,3)] that(4) show False by simp
  qed
  moreover have "set ?r = set result" by (auto simp: stablePart_def)
  ultimately show ?thesis
    using fetchLatestProjects_sorted [of client w query now result, OF assms] by auto
qed

theorem viewer_records_first_witness:
  "\<exists>r. fst (fetchLatestProjects (\<lambda>k. Inr exampleQuery) (3 * Hour) exampleWorld) = Returns r
     \<and> r = exampleResult \<and> length r = length exampleParsed \<and> set r = set exampleParsed
     \<and> (\<forall>i j. i < length r \<and> j < length r
           \<and> CommitAuthorID (r ! i) = ViewerLogin exampleQuery
           \<and> CommitAuthorID (r ! j) \<noteq> ViewerLogin exampleQuery \<longrightarrow> i < j)"
  using viewer_records_first [of "\<lambda>k. Inr exampleQuery" exampleWorld exampleQuery "3 * Hour"
      exampleParsed, OF refl exampleQuery_parse]
    exampleQuery_fetch [of exampleWorld]
  by auto

text \<open>
  Claim C2. The ordering stage is stable: the records whose commit author is not the
  viewer come out in the order they went in, and so do the records whose commit author
  is the viewer.
\<close>

theorem ordering_stable:
  assumes "client (QueryCalls w) = Inr query" and "parseResult now (Nodes query) [] = Inr result"
  shows "\<exists>r. fst (fetchLatestProjects client now w) = Returns r
    \<and> filter (\<lambda>e. CommitAuthorID e \<noteq> ViewerLogin query) r
        = filter (\<lambda>e. CommitAuthorID e \<noteq> ViewerLogin query) result
    \<and> filter (\<lambda>e. CommitAuthorID e = ViewerLogin query) r
        = filter (\<lambda>e. CommitAuthorID e = ViewerLogin query) result"
  using fetchLatestProjects_sorted [of client w query now result, OF assms] by simp

theorem ordering_stable_witness:
  "fst (fetchLatestProjects (\<lambda>k. Inr exampleQuery) (3 * Hour) exampleWorld) = Returns exampleResult
   \<and> filter (\<lambda>e. CommitAuthorID e \<noteq> ViewerLogin exampleQuery) exampleResult
       = filter (\<lambda>e. CommitAuthorID e \<noteq> ViewerLogin exampleQuery) exampleParsed
   \<and> map RepoName (filter (\<lambda>e. CommitAuthorID e \<noteq> ViewerLogin exampleQuery) exampleParsed)
       = [''foo'', ''baz'']
   \<and> map RepoName exampleParsed = [''foo'', ''bar'', ''baz'']
   \<and> map RepoName exampleResult = [''bar'', ''foo'', ''baz'']"
proof -
  have "map RepoName (filter (\<lambda>e. CommitAuthorID e \<noteq> ViewerLogin exampleQuery) exampleParsed)
       = [''foo'', ''baz'']"
    "map RepoName exampleParsed = [''foo'', ''bar'', ''baz'']"
    "map RepoName exampleResult = [''bar'', ''foo'', ''baz'']"
    by code_simp+
  with ordering_stable [of "\<lambda>k. Inr exampleQuery" exampleWorld exampleQuery "3 * Hour"
      exampleParsed, OF refl exampleQuery_parse]
    exampleQuery_fetch [of exampleWorld]
  show ?thesis by auto
qed

section \<open>Properties of the failing runs\<close>

lemma fetchLatestProjects_world:
  "fetchLatestProjects client now w = (out, w1) \<Longrightarrow> w1 = w\<lparr>QueryCalls := QueryCalls w + 1\<rparr>"
  by (auto simp: fetchLatestProjects_def Query_def split: sum.splits if_splits option.splits)

lemma parseNode_lacksCommit:
  "lacksCommit repo \<Longrightarrow> parseNode now repo = Inl (IndexOutOfRange 0 0)"
  by (auto simp: lacksCommit_def parseNode_def split: list.splits)

lemma parseNode_Inl: "parseNode now repo = Inl p \<Longrightarrow> p = IndexOutOfRange 0 0"
  by (auto simp: parseNode_def Let_def split: list.splits)

lemma parseResult_lacksCommit:
  "repo \<in> set nodes \<Longrightarrow> lacksCommit repo \<Longrightarrow> parseResult now nodes acc = Inl (IndexOutOfRange 0 0)"
proof (induction nodes arbitrary: acc)
  case Nil
  then show ?case by simp
next
  case (Cons r rest)
  show ?case
  proof (cases "parseNode now r")
    case (Inl p)
    with parseNode_Inl [OF Inl] show ?thesis by simp
  next
    case (Inr entry)
    with Cons.prems parseNode_lacksCommit [of r now] have "repo \<in> set rest" by auto
    from Cons.IH [OF this Cons.prems(2)] Inr show ?thesis by simp
  qed
qed

text \<open>
  Claim C9. A response with a node that has no branch, or whose first branch has no commit,
  makes \<^verbatim>\<open>fetchLatestProjects\<close> panic with the runtime's index fault: no check stands
  before \<^verbatim>\<open>Edges[0]\<close>.
\<close>

theorem empty_edges_fault:
  "client (QueryCalls w) = Inr query \<Longrightarrow> repo \<in> set (Nodes query) \<Longrightarrow> lacksCommit repo \<Longrightarrow>
     fetchLatestProjects client now w =
       (Panics (IndexOutOfRange 0 0), w\<lparr>QueryCalls := QueryCalls w + 1\<rparr>)"
  by (simp add: fetchLatestProjects_def Query_def parseResult_lacksCommit)

theorem empty_edges_fault_witness:
  "fetchLatestProjects (\<lambda>k. Inr (exampleQuery\<lparr>Nodes := Nodes exampleQuery @ [emptyRepo]\<rparr>)) 0 exampleWorld
     = (Panics (IndexOutOfRange 0 0), exampleWorld\<lparr>QueryCalls := 1\<rparr>)
   \<and> fetchLatestProjects (\<lambda>k. Inr (exampleQuery\<lparr>Nodes := noCommitRepo # Nodes exampleQuery\<rparr>)) 0 exampleWorld
     = (Panics (IndexOutOfRange 0 0), exampleWorld\<lparr>QueryCalls := 1\<rparr>)"
proof -
  have a: "lacksCommit emptyRepo" by (simp add: lacksCommit_def emptyRepo_def)
  have b: "lacksCommit noCommitRepo" by (simp add: lacksCommit_def noCommitRepo_def)
  show ?thesis
    using empty_edges_fault [of "\<lambda>k. Inr (exampleQuery\<lparr>Nodes := Nodes exampleQuery @ [emptyRepo]\<rparr>)"
        exampleWorld _ emptyRepo 0, OF refl _ a]
      empty_edges_fault [of "\<lambda>k. Inr (exampleQuery\<lparr>Nodes := noCommitRepo # Nodes exampleQuery\<rparr>)"
        exampleWorld _ noCommitRepo 0, OF refl _ b]
    by (simp add: exampleWorld_def)
qed

text \<open>
  Claim C8. When the query fails, \<^verbatim>\<open>main\<close> panics with the query's error after that one
  call of \<^verbatim>\<open>client.Query\<close>, and no file has changed.
\<close>

theorem query_failure_fatal:
  "client (QueryCalls w) = Inl err \<Longrightarrow>
     main client now w = (Panics (QueryFailed err), w\<lparr>QueryCalls := QueryCalls w + 1\<rparr>)"
  by (simp add: main_def fetchLatestProjects_def Query_def)

theorem query_failure_fatal_witness:
  "main (\<lambda>k. Inl ''401 Unauthorized'') 0 exampleWorld
     = (Panics (QueryFailed ''401 Unauthorized''), exampleWorld\<lparr>QueryCalls := 1\<rparr>)"
  using query_failure_fatal [of "\<lambda>k. Inl ''401 Unauthorized''" exampleWorld "''401 Unauthorized''" 0]
  by (simp add: exampleWorld_def)

section \<open>Properties of the write stage\<close>

lemma renderLoop_concat: "renderLoop r buf = buf @ concat (map (Execute markdownTableTmpl) r)"
  by (induction r arbitrary: buf) simp_all

lemma exampleQuery_fetch_world:
  "fetchLatestProjects (\<lambda>k. Inr exampleQuery) (3 * Hour) w
     = (Returns exampleResult, w\<lparr>QueryCalls := QueryCalls w + 1\<rparr>)"
  using exampleQuery_fetch [of w]
    fetchLatestProjects_world [of "\<lambda>k. Inr exampleQuery" "3 * Hour" w]
  by (cases "fetchLatestProjects (\<lambda>k. Inr exampleQuery) (3 * Hour) w") simp

lemma Execute_tableRow: "Execute markdownTableTmpl = tableRow"
  by (intro ext) (simp add: markdownTableTmpl_def tableRow_def)

text \<open>
  Claim C3, amended. When the staging file does not exist, \<^verbatim>\<open>OpenFile\<close> fails, and
  \<^verbatim>\<open>main\<close> goes on with the nil handle: it returns as after a success, and no file is
  made or changed.
\<close>

theorem missing_staging_file_no_abort:
  assumes "Files w (Resolve w originReadmeFile) = None"
    and "fetchLatestProjects client now w = (Returns r, w1)"
  shows "OpenFile originReadmeFile w1 = (None, Some ErrNotExist)
    \<and> main client now w = (Returns (), w1)
    \<and> Files w1 = Files w"
proof -
  from fetchLatestProjects_world [OF assms(2)] have w1: "w1 = w\<lparr>QueryCalls := QueryCalls w + 1\<rparr>" .
  with assms(1) have f: "Files w1 (Resolve w1 originReadmeFile) = None" by simp
  then have o: "OpenFile originReadmeFile w1 = (None, Some ErrNotExist)"
    by (simp add: OpenFile_def)
  from f o assms(2) have "main client now w = (Returns (), w1)"
    by (simp add: main_def WriteString_def Rename_def Let_def)
  with o w1 show ?thesis by simp
qed

theorem missing_staging_file_no_abort_witness:
  "Files emptyWorld (Resolve emptyWorld originReadmeFile) = None
   \<and> OpenFile originReadmeFile (emptyWorld\<lparr>QueryCalls := 1\<rparr>) = (None, Some ErrNotExist)
   \<and> main (\<lambda>k. Inr exampleQuery) (3 * Hour) emptyWorld = (Returns (), emptyWorld\<lparr>QueryCalls := 1\<rparr>)"
proof -
  have f: "Files emptyWorld (Resolve emptyWorld originReadmeFile) = None"
    by (simp add: emptyWorld_def exampleWorld_def)
  have q: "emptyWorld\<lparr>QueryCalls := QueryCalls emptyWorld + 1\<rparr> = emptyWorld\<lparr>QueryCalls := 1\<rparr>"
    by (simp add: emptyWorld_def exampleWorld_def)
  from missing_staging_file_no_abort [OF f exampleQuery_fetch_world] f q show ?thesis by simp
qed

text \<open>
  Claim C3 as stated fails: with no staging file the process does not abort, it returns.
\<close>

theorem missing_staging_file_counterexample:
  "Files emptyWorld (Resolve emptyWorld originReadmeFile) = None
   \<and> fst (main (\<lambda>k. Inr exampleQuery) (3 * Hour) emptyWorld) = Returns ()"
  by code_simp

text \<open>
  Claim C7. Take a run in which the records have been fetched, the staging file exists
  and the write stage is successful: the open, the two writes and the rename return no
  error. Then \<^verbatim>\<open>main\<close> returns, \<^verbatim>\<open>README.md\<close> holds the staging file's former content,
  then the bytes of the header, then the bytes of the rows of the records in their
  order, and no file is left at the staging file's name. (The two names are two entries
  of the directory.)
\<close>

theorem end_to_end_write:
  assumes "Files w (Resolve w originReadmeFile) = Some prior"
    and "fetchLatestProjects client now w = (Returns r, w1)"
    and "writeStageErrors r w1 = [None, None, None, None]"
    and "Resolve w originReadmeFile \<noteq> Resolve w ''README.md''"
  shows "\<exists>w'. main client now w = (Returns (), w')
    \<and> Files w' (Resolve w ''README.md'') =
        Some (prior
          @ [CHR 0x0A] @ ''| repo | branch | commit | author | time since | language |''
          @ [CHR 0x0A] @ ''|:---:|:---:|:---:|:---:|:---:|:---:|'' @ [CHR 0x0A]
          @ concat (map tableRow r))
    \<and> Files w' (Resolve w originReadmeFile) = None"
proof -
  let ?e = "Resolve w originReadmeFile"
  let ?buf = "concat (map tableRow r)"
  from fetchLatestProjects_world [OF assms(2)] have w1: "w1 = w\<lparr>QueryCalls := QueryCalls w + 1\<rparr>" .
  have buf: "renderLoop r [] = ?buf" by (simp add: renderLoop_concat Execute_tableRow)
  have f: "Files w1 ?e = Some prior" and res: "Resolve w1 = Resolve w"
    using assms(1) w1 by simp_all
  from assms(3) f res have o: "OpenFile originReadmeFile w1 = (Some ?e, None)"
    by (auto simp: writeStageErrors_def OpenFile_def Let_def split: option.splits)
  define w2 where "w2 = w1\<lparr>Files := (Files w1)(?e \<mapsto> prior @ markdownTableHeaderTmpl)\<rparr>"
  from assms(3) f o have h: "WriteString (Some ?e) markdownTableHeaderTmpl w1 = (None, w2)"
    by (auto simp: writeStageErrors_def WriteString_def Let_def w2_def split: option.splits)
  define w3 where "w3 = w2\<lparr>Files := (Files w2)(?e \<mapsto> prior @ markdownTableHeaderTmpl @ ?buf)\<rparr>"
  have f2: "Files w2 ?e = Some (prior @ markdownTableHeaderTmpl)" by (simp add: w2_def)
  from assms(3) o h f2 buf have rows: "WriteString (Some ?e) ?buf w2 = (None, w3)"
    by (auto simp: writeStageErrors_def WriteString_def Let_def w3_def split: option.splits)
  define w4 where "w4 = w3\<lparr>Files := ((Files w3)(?e := None))(Resolve w ''README.md'' \<mapsto>
      prior @ markdownTableHeaderTmpl @ ?buf)\<rparr>"
  have f3: "Files w3 ?e = Some (prior @ markdownTableHeaderTmpl @ ?buf)"
    and res3: "Resolve w3 = Resolve w"
    by (simp_all add: w3_def w2_def res)
  from assms(3) o h rows buf f3 res3 have ren: "Rename originReadmeFile ''README.md'' w3 = (None, w4)"
    by (auto simp: writeStageErrors_def Rename_def Let_def w4_def split: option.splits)
  have "main client now w = (Returns (), w4)"
    using assms(2) o h rows ren buf by (simp add: main_def Let_def)
  moreover have "Files w4 (Resolve w ''README.md'') = Some (prior @ markdownTableHeaderTmpl @ ?buf)"
    by (simp add: w4_def)
  moreover have "Files w4 ?e = None" using assms(4) by (simp add: w4_def)
  ultimately show ?thesis by (auto simp: markdownTableHeaderTmpl_def)
qed

theorem end_to_end_write_witness:
  "\<exists>w'. main (\<lambda>k. Inr exampleQuery) (3 * Hour) exampleWorld = (Returns (), w')
     \<and> Files w' (Resolve exampleWorld ''README.md'') = Some
        (''# Hi''
         @ [CHR 0x0A] @ ''| repo | branch | commit | author | time since | language |''
         @ [CHR 0x0A] @ ''|:---:|:---:|:---:|:---:|:---:|:---:|'' @ [CHR 0x0A]
         @ ''| [bar](https://github.com/alice/bar) | [main](https://github.com/alice/bar/tree/main) ''
         @ ''|[abc123d](https://github.com/alice/foo/commit/abc123d) | [@alice](https://github.com/alice) ''
         @ ''|3 hours 0 minutes | ![](https://img.shields.io/badge/language-unknown-default.svg?style=flat-square)|''
         @ [CHR 0x0A]
         @ ''| [foo](https://github.com/alice/foo) | [main](https://github.com/alice/foo/tree/main) ''
         @ ''|[abc123d](https://github.com/alice/foo/commit/abc123d) | [@bob](https://github.com/bob) ''
         @ ''|3 hours 0 minutes | ![](https://img.shields.io/badge/language-Go-default.svg?style=flat-square)|''
         @ [CHR 0x0A]
         @ ''| [baz](https://github.com/alice/baz) | [main](https://github.com/alice/baz/tree/main) ''
         @ ''|[abc123d](https://github.com/alice/foo/commit/abc123d) | [@carol](https://github.com/carol) ''
         @ ''|3 hours 0 minutes | ![](https://img.shields.io/badge/language-C&#43;&#43;-default.svg?style=flat-square)|''
         @ [CHR 0x0A])
     \<and> Files w' (Resolve exampleWorld originReadmeFile) = None"
proof -
  have f: "Files exampleWorld (Resolve exampleWorld originReadmeFile) = Some ''# Hi''"
    by (simp add: exampleWorld_def originReadmeFile_def exampleResolve_def)
  have e: "writeStageErrors exampleResult (exampleWorld\<lparr>QueryCalls := QueryCalls exampleWorld + 1\<rparr>)
      = [None, None, None, None]"
    by code_simp
  have n: "Resolve exampleWorld originReadmeFile \<noteq> Resolve exampleWorld ''README.md''"
    by (simp add: exampleWorld_def originReadmeFile_def exampleResolve_def)
  have b: "''# Hi''
          @ [CHR 0x0A] @ ''| repo | branch | commit | author | time since | language |''
          @ [CHR 0x0A] @ ''|:---:|:---:|:---:|:---:|:---:|:---:|'' @ [CHR 0x0A]
          @ concat (map tableRow exampleResult) =
        (''# Hi''
         @ [CHR 0x0A] @ ''| repo | branch | commit | author | time since | language |''
         @ [CHR 0x0A] @ ''|:---:|:---:|:---:|:---:|:---:|:---:|'' @ [CHR 0x0A]
         @ ''| [bar](https://github.com/alice/bar) | [main](https://github.com/alice/bar/tree/main) ''
         @ ''|[abc123d](https://github.com/alice/foo/commit/abc123d) | [@alice](https://github.com/alice) ''
         @ ''|3 hours 0 minutes | ![](https://img.shields.io/badge/language-unknown-default.svg?style=flat-square)|''
         @ [CHR 0x0A]
         @ ''| [foo](https://github.com/alice/foo) | [main](https://github.com/alice/foo/tree/main) ''
         @ ''|[abc123d](https://github.com/alice/foo/commit/abc123d) | [@bob](https://github.com/bob) ''
         @ ''|3 hours 0 minutes | ![](https://img.shields.io/badge/language-Go-default.svg?style=flat-square)|''
         @ [CHR 0x0A]
         @ ''| [baz](https://github.com/alice/baz) | [main](https://github.com/alice/baz/tree/main) ''
         @ ''|[abc123d](https://github.com/alice/foo/commit/abc123d) | [@carol](https://github.com/carol) ''
         @ ''|3 hours 0 minutes | ![](https://img.shields.io/badge/language-C&#43;&#43;-default.svg?style=flat-square)|''
         @ [CHR 0x0A])"
    by code_simp
  from end_to_end_write [OF f exampleQuery_fetch_world e n] b show ?thesis by simp
qed

text \<open>
  A run outside the claim: the staging file exists and the kernel refuses to open it.
  The two writes on the nil handle fail, the rename goes through, and \<^verbatim>\<open>README.md\<close> is
  left with the staging file's former content and no table.
\<close>

lemma refused_open_run:
  "writeStageErrors exampleResult (lockedWorld\<lparr>QueryCalls := 1\<rparr>)
     = [Some ErrPermission, Some ErrInvalid, Some ErrInvalid, None]
   \<and> fst (main (\<lambda>k. Inr exampleQuery) (3 * Hour) lockedWorld) = Returns ()
   \<and> Files (snd (main (\<lambda>k. Inr exampleQuery) (3 * Hour) lockedWorld)) 0 = Some ''# Hi''
   \<and> Files (snd (main (\<lambda>k. Inr exampleQuery) (3 * Hour) lockedWorld)) 1 = None"
  by code_simp

section \<open>Properties of the render stage\<close>

lemma htmlReplacer_plain: "list_all (\<lambda>c. \<not> htmlSpecial c) s \<Longrightarrow> htmlReplacer s = s"
  by (induction s) (auto simp: htmlSpecial_def htmlReplacementTable_def)

text \<open>
  Claim C6, amended. For a record none of whose fields has a byte that the escaper
  replaces, the rendered row is the row template with the fields put in as they are.
\<close>

theorem render_plain_row:
  "plainEntry v \<Longrightarrow> Execute markdownTableTmpl v = Substitute markdownTableTmpl v"
  by (simp add: plainEntry_def entryFields_def markdownTableTmpl_def htmlEscaper_def htmlReplacer_plain)

theorem render_plain_row_witness:
  "plainEntry exampleEntry
   \<and> Execute markdownTableTmpl exampleEntry =
       ''| [foo](https://github.com/alice/foo) | [main](https://github.com/alice/foo/tree/main) ''
       @ ''|[abc123](https://github.com/alice/foo/commit/abc123) | [@alice](https://github.com/alice) ''
       @ ''|3 hours 15 minutes | ![](https://img.shields.io/badge/language-Go-default.svg?style=flat-square)|''
       @ [CHR 0x0A]"
proof -
  have p: "plainEntry exampleEntry" by code_simp
  have "Substitute markdownTableTmpl exampleEntry =
       ''| [foo](https://github.com/alice/foo) | [main](https://github.com/alice/foo/tree/main) ''
       @ ''|[abc123](https://github.com/alice/foo/commit/abc123) | [@alice](https://github.com/alice) ''
       @ ''|3 hours 15 minutes | ![](https://img.shields.io/badge/language-Go-default.svg?style=flat-square)|''
       @ [CHR 0x0A]"
    by code_simp
  with render_plain_row [OF p] p show ?thesis by simp
qed

text \<open>
  Claim C6 as stated fails: the row of a record whose language is \<open>C++\<close> is not the
  template with the fields put in.
\<close>

theorem render_row_counterexample:
  "Substitute markdownTableTmpl cppEntry =
       ''| [foo](https://github.com/alice/foo) | [main](https://github.com/alice/foo/tree/main) ''
       @ ''|[abc123](https://github.com/alice/foo/commit/abc123) | [@alice](https://github.com/alice) ''
       @ ''|3 hours 15 minutes | ![](https://img.shields.io/badge/language-C++-default.svg?style=flat-square)|''
       @ [CHR 0x0A]
   \<and> Execute markdownTableTmpl cppEntry \<noteq> Substitute markdownTableTmpl cppEntry"
  by code_simp

lemma htmlSpecial_iff: "htmlSpecial c \<longleftrightarrow> htmlReplacementTable c \<noteq> []"
  by (simp add: htmlSpecial_def htmlReplacementTable_def)

lemma htmlReplacementTable_length: "htmlSpecial c \<Longrightarrow> 1 < length (htmlReplacementTable c)"
  by (auto simp: htmlSpecial_def htmlReplacementTable_def)

lemma htmlReplacer_length: "length s \<le> length (htmlReplacer s)"
proof (induction s)
  case Nil
  show ?case by simp
next
  case (Cons c s)
  show ?case
  proof (cases "htmlSpecial c")
    case True
    with htmlReplacementTable_length [OF True] Cons show ?thesis
      by (simp add: htmlSpecial_iff)
  next
    case False
    with Cons show ?thesis by (simp add: htmlSpecial_iff)
  qed
qed

lemma htmlReplacer_longer:
  "\<not> list_all (\<lambda>c. \<not> htmlSpecial c) s \<Longrightarrow> length s < length (htmlReplacer s)"
proof (induction s)
  case Nil
  then show ?case by simp
next
  case (Cons c s)
  show ?case
  proof (cases "htmlSpecial c")
    case True
    with htmlReplacementTable_length [OF True] htmlReplacer_length [of s] show ?thesis
      by (simp add: htmlSpecial_iff)
  next
    case False
    with Cons show ?thesis by (simp add: htmlSpecial_iff)
  qed
qed

lemma Execute_length: "length (Substitute ns v) \<le> length (Execute ns v)"
proof (induction ns v rule: Execute.induct)
  case (1 v)
  show ?case by simp
next
  case (2 t ns v)
  then show ?case by simp
next
  case (3 f ns v)
  with htmlReplacer_length [of "f v"] show ?case by (simp add: htmlEscaper_def)
qed

lemma Execute_longer:
  "ActionNode f \<in> set ns \<Longrightarrow> \<not> list_all (\<lambda>c. \<not> htmlSpecial c) (f v) \<Longrightarrow>
     length (Substitute ns v) < length (Execute ns v)"
proof (induction ns v rule: Execute.induct)
  case (1 v)
  then show ?case by simp
next
  case (2 t ns v)
  then show ?case by simp
next
  case (3 g ns v)
  show ?case
  proof (cases "g = f")
    case True
    with 3(3) htmlReplacer_longer [of "f v"] Execute_length [of ns v] show ?thesis
      by (simp add: htmlEscaper_def)
  next
    case False
    with 3 have "length (Substitute ns v) < length (Execute ns v)" by simp
    with htmlReplacer_length [of "g v"] show ?thesis by (simp add: htmlEscaper_def)
  qed
qed

text \<open>
  Claim C10. A record with an HTML-special byte in a field is never rendered as the
  template with the fields put in: the escaper has put an entity in the byte's place, and
  the row is longer.
\<close>

theorem render_escapes:
  assumes "\<not> plainEntry v"
  shows "Execute markdownTableTmpl v \<noteq> Substitute markdownTableTmpl v
    \<and> length (Substitute markdownTableTmpl v) < length (Execute markdownTableTmpl v)"
proof -
  from assms obtain f where f: "ActionNode f \<in> set markdownTableTmpl"
      and s: "\<not> list_all (\<lambda>c. \<not> htmlSpecial c) (f v)"
    by (auto simp: plainEntry_def entryFields_def markdownTableTmpl_def)
  from Execute_longer [OF f s] show ?thesis by auto
qed

theorem render_escapes_witness:
  "\<not> plainEntry cppEntry
   \<and> Execute markdownTableTmpl cppEntry =
       ''| [foo](https://github.com/alice/foo) | [main](https://github.com/alice/foo/tree/main) ''
       @ ''|[abc123](https://github.com/alice/foo/commit/abc123) | [@alice](https://github.com/alice) ''
       @ ''|3 hours 15 minutes | ![](https://img.shields.io/badge/language-C&#43;&#43;-default.svg?style=flat-square)|''
       @ [CHR 0x0A]
   \<and> Execute markdownTableTmpl cppEntry \<noteq> Substitute markdownTableTmpl cppEntry"
proof -
  have p: "\<not> plainEntry cppEntry" by code_simp
  have "Execute markdownTableTmpl cppEntry =
       ''| [foo](https://github.com/alice/foo) | [main](https://github.com/alice/foo/tree/main) ''
       @ ''|[abc123](https://github.com/alice/foo/commit/abc123) | [@alice](https://github.com/alice) ''
       @ ''|3 hours 15 minutes | ![](https://img.shields.io/badge/language-C&#43;&#43;-default.svg?style=flat-square)|''
       @ [CHR 0x0A]"
    by code_simp
  with render_escapes [OF p] p show ?thesis by simp
qed

end
